theory Spec2Isabelle
  imports Main "HOL-Library.Word" "HOL-Library.Signed_Division"
begin

section \<open>MTRingBuffer: a slot-addressed ring buffer\<close>

text \<open>
  A shallow embedding of \<^verbatim>\<open>src/RingBuffer/MTRingBuffer.cpp\<close>. The object is a
  record of its data members, every member function takes the object and returns the
  updated one, and the memory a pointer argument refers to is passed and returned as a
  list of bytes.

  Conventions of the embedding:
  \<^item> The type \<^verbatim>\<open>int\<close> has 32 bits. A value of that type is a HOL integer between
    \<open>INT_MIN\<close> and \<open>INT_MAX\<close>, and the operators \<^verbatim>\<open>+\<close>, \<^verbatim>\<open>-\<close> and
    \<^verbatim>\<open>*\<close> are \<open>int_add\<close>, \<open>int_sub\<close> and \<open>int_mul\<close>, which wrap around
    modulo \<open>2 ^ 32\<close> as the compiled code does on a two's-complement machine (the
    C++ standard itself leaves signed overflow undefined). The operators \<^verbatim>\<open>/\<close> and
    \<^verbatim>\<open>%\<close> truncate towards zero and are \<open>sdiv\<close> and \<open>smod\<close>.
  \<^item> A block of memory is the list of its bytes, and a pointer into it is the block
    with an offset. A call that reads or writes beyond a block has no defined
    behaviour in C++; the functions below are meant for blocks that are long enough.
  \<^item> The mutex is not modelled: every member function holds it from entry to exit, so
    each call is one atomic step on the record. What the other threads do while a
    blocking call is parked in \<^verbatim>\<open>QWaitCondition::wait\<close> is a parameter of that call.
\<close>

subsection \<open>The arithmetic of \<^verbatim>\<open>int\<close>\<close>

definition INT_MAX :: int where
  "INT_MAX = 2147483647"

definition INT_MIN :: int where
  "INT_MIN = - 2147483648"

text \<open>The 32-bit two's-complement value that agrees with an integer modulo \<open>2 ^ 32\<close>.\<close>

definition wrap_int :: "int \<Rightarrow> int" where
  "wrap_int x = (x + 2147483648) mod 4294967296 - 2147483648"

definition int_add :: "int \<Rightarrow> int \<Rightarrow> int" where
  "int_add a b = wrap_int (a + b)"

definition int_sub :: "int \<Rightarrow> int \<Rightarrow> int" where
  "int_sub a b = wrap_int (a - b)"

definition int_mul :: "int \<Rightarrow> int \<Rightarrow> int" where
  "int_mul a b = wrap_int (a * b)"

subsection \<open>Bytes and the two routines of \<^verbatim>\<open>cstring\<close>\<close>

text \<open>
  Modelled from the spec: the type \<^verbatim>\<open>byte\<close> comes from
  \<^verbatim>\<open>MTAudioControllerGlobals.h\<close>, which is not part of the sources; the header and
  the specification describe it as an 8-bit quantity.
\<close>

type_synonym byte = "8 word"

text \<open>\<^verbatim>\<open>std::memset(dst, c, n)\<close>: the first \<open>n\<close> bytes of the block become \<open>c\<close>.\<close>

definition memset :: "byte list \<Rightarrow> byte \<Rightarrow> int \<Rightarrow> byte list" where
  "memset dst c n = replicate (nat n) c @ drop (nat n) dst"

text \<open>
  \<^verbatim>\<open>std::memcpy(dst + i, src + j, n)\<close>: \<open>n\<close> bytes of \<open>src\<close> from offset \<open>j\<close>
  replace the bytes of \<open>dst\<close> from offset \<open>i\<close>.
\<close>

definition memcpy :: "byte list \<Rightarrow> int \<Rightarrow> byte list \<Rightarrow> int \<Rightarrow> int \<Rightarrow> byte list" where
  "memcpy dst i src j n =
     take (nat i) dst @ take (nat n) (drop (nat j) src) @ drop (nat i + nat n) dst"

text \<open>
  The ways construction can fail. An array \<^verbatim>\<open>new\<close> reports failure by throwing
  \<^verbatim>\<open>std::bad_alloc\<close> (for a negative length its subclass
  \<^verbatim>\<open>std::bad_array_new_length\<close>) and never returns a null pointer, so the
  constructor's own check for a null pointer, with its \<^verbatim>\<open>std::length_error\<close>, is
  never taken and has no branch here. The remainder \<^verbatim>\<open>% mTotalSize\<close> divides by
  zero when the total size is zero.
\<close>

datatype error = bad_alloc | division_by_zero

text \<open>
  \<^verbatim>\<open>new byte[n]\<close>. The allocator is the environment's: its answer is a parameter,
  \<open>None\<close> when it has no memory left and \<open>Some g\<close> for a fresh block of \<open>n\<close> bytes
  whose uninitialised contents are \<open>g 0, g 1, ...\<close>.
\<close>

definition new_bytes :: "(nat \<Rightarrow> byte) option \<Rightarrow> int \<Rightarrow> error + byte list" where
  "new_bytes mem n =
     (if n < 0 then Inl bad_alloc
      else case mem of
        None \<Rightarrow> Inl bad_alloc
      | Some g \<Rightarrow> Inr (map g [0..<nat n]))"

subsection \<open>The object\<close>

record MTRingBuffer =
  mSlotSize :: int
  mNumSlots :: int
  mTotalSize :: int
  mReadPosition :: int
  mWritePosition :: int
  mFullSlots :: int
  mRingBuffer :: "byte list"
  mLastReadSlot :: "byte list"

subsection \<open>Constructor\<close>

definition MTRingBuffer_ctor ::
  "(nat \<Rightarrow> byte) option \<Rightarrow> (nat \<Rightarrow> byte) option \<Rightarrow> int \<Rightarrow> int \<Rightarrow> error + MTRingBuffer" where
  "MTRingBuffer_ctor ringMem lastMem SlotSize NumSlots =
     (let total = int_mul SlotSize NumSlots in
      case new_bytes ringMem total of
        Inl e \<Rightarrow> Inl e
      | Inr rb \<Rightarrow>
          (case new_bytes lastMem SlotSize of
             Inl e \<Rightarrow> Inl e
           | Inr lr \<Rightarrow>
               if total = 0 then Inl division_by_zero
               else Inr \<lparr> mSlotSize = SlotSize,
                          mNumSlots = NumSlots,
                          mTotalSize = total,
                          mReadPosition = 0,
                          mWritePosition =
                            (int_mul (NumSlots sdiv 2) SlotSize) smod total,
                          mFullSlots = NumSlots sdiv 2,
                          mRingBuffer = memset rb 0 total,
                          mLastReadSlot = memset lr 0 SlotSize \<rparr>))"

subsection \<open>Recovery policies\<close>

definition setUnderrunReadSlot :: "MTRingBuffer \<Rightarrow> byte list \<Rightarrow> byte list" where
  "setUnderrunReadSlot b ptrToReadSlot = memset ptrToReadSlot 0 (mSlotSize b)"

definition underrunReset :: "MTRingBuffer \<Rightarrow> MTRingBuffer" where
  "underrunReset b = b\<lparr> mRingBuffer := memset (mRingBuffer b) 0 (mTotalSize b) \<rparr>"

definition overflowReset :: "MTRingBuffer \<Rightarrow> MTRingBuffer" where
  "overflowReset b =
     b\<lparr> mReadPosition :=
          (int_add (mReadPosition b) (int_mul (mNumSlots b sdiv 2) (mSlotSize b)))
            smod mTotalSize b,
        mFullSlots := int_sub (mFullSlots b) (mNumSlots b sdiv 2) \<rparr>"

subsection \<open>Non-blocking transfer\<close>

definition insertSlotNonBlocking :: "MTRingBuffer \<Rightarrow> byte list \<Rightarrow> MTRingBuffer" where
  "insertSlotNonBlocking b ptrToSlot =
     (if mFullSlots b = mNumSlots b then overflowReset b
      else b\<lparr> mRingBuffer :=
                 memcpy (mRingBuffer b) (mWritePosition b) ptrToSlot 0 (mSlotSize b),
               mWritePosition := (int_add (mWritePosition b) (mSlotSize b)) smod mTotalSize b,
               mFullSlots := int_add (mFullSlots b) 1 \<rparr>)"

text \<open>
  A read returns the object together with the caller's block \<open>ptrToReadSlot\<close> as the
  call leaves it.
\<close>

definition readSlotNonBlocking ::
  "MTRingBuffer \<Rightarrow> byte list \<Rightarrow> MTRingBuffer \<times> byte list" where
  "readSlotNonBlocking b ptrToReadSlot =
     (if mFullSlots b = 0
      then (underrunReset b, setUnderrunReadSlot b ptrToReadSlot)
      else (b\<lparr> mLastReadSlot :=
                  memcpy (mLastReadSlot b) 0 (mRingBuffer b) (mReadPosition b) (mSlotSize b),
                mReadPosition := (int_add (mReadPosition b) (mSlotSize b)) smod mTotalSize b,
                mFullSlots := int_sub (mFullSlots b) 1 \<rparr>,
            memcpy ptrToReadSlot 0 (mRingBuffer b) (mReadPosition b) (mSlotSize b)))"

subsection \<open>Blocking transfer\<close>

text \<open>
  The loop \<^verbatim>\<open>while (guard) cond.wait(&mMutex);\<close> releases the mutex while the caller
  is parked and holds it again when \<^verbatim>\<open>wait\<close> returns. The first argument lists, for
  each return of \<^verbatim>\<open>wait\<close>, what the other threads did to the object in the meantime
  (the identity for a spurious wake). The result is \<open>None\<close> when the guard still holds
  after the last of them: the caller is still parked. The final \<^verbatim>\<open>wakeAll\<close> changes
  no data member and does not appear.
\<close>

type_synonym wakes = "(MTRingBuffer \<Rightarrow> MTRingBuffer) list"

fun insertSlotBlocking :: "wakes \<Rightarrow> MTRingBuffer \<Rightarrow> byte list \<Rightarrow> MTRingBuffer option" where
  "insertSlotBlocking ws b ptrToSlot =
     (if mFullSlots b = mNumSlots b
      then (case ws of
              [] \<Rightarrow> None
            | w # ws' \<Rightarrow> insertSlotBlocking ws' (w b) ptrToSlot)
      else Some (b\<lparr> mRingBuffer :=
                      memcpy (mRingBuffer b) (mWritePosition b) ptrToSlot 0 (mSlotSize b),
                    mWritePosition := (int_add (mWritePosition b) (mSlotSize b)) smod mTotalSize b,
                    mFullSlots := int_add (mFullSlots b) 1 \<rparr>))"

fun readSlotBlocking ::
  "wakes \<Rightarrow> MTRingBuffer \<Rightarrow> byte list \<Rightarrow> (MTRingBuffer \<times> byte list) option" where
  "readSlotBlocking ws b ptrToReadSlot =
     (if mFullSlots b = 0
      then (case ws of
              [] \<Rightarrow> None
            | w # ws' \<Rightarrow> readSlotBlocking ws' (w b) ptrToReadSlot)
      else Some (b\<lparr> mLastReadSlot :=
                      memcpy (mLastReadSlot b) 0 (mRingBuffer b) (mReadPosition b) (mSlotSize b),
                    mReadPosition := (int_add (mReadPosition b) (mSlotSize b)) smod mTotalSize b,
                    mFullSlots := int_sub (mFullSlots b) 1 \<rparr>,
                 memcpy ptrToReadSlot 0 (mRingBuffer b) (mReadPosition b) (mSlotSize b)))"

declare insertSlotBlocking.simps [simp del]
declare readSlotBlocking.simps [simp del]

subsection \<open>Well-formed objects\<close>

text \<open>
  The constants: positive sizes, and the total size their product, a value of type
  \<^verbatim>\<open>int\<close>.
\<close>

definition ring_consts :: "MTRingBuffer \<Rightarrow> bool" where
  "ring_consts b \<longleftrightarrow>
     0 < mSlotSize b \<and> 0 < mNumSlots b \<and> mTotalSize b = mSlotSize b * mNumSlots b \<and>
     mTotalSize b \<le> INT_MAX"

text \<open>The two blocks are as long as they were allocated.\<close>

definition ring_blocks :: "MTRingBuffer \<Rightarrow> bool" where
  "ring_blocks b \<longleftrightarrow>
     length (mRingBuffer b) = nat (mTotalSize b) \<and>
     length (mLastReadSlot b) = nat (mSlotSize b)"

text \<open>The invariant of the positions and the slot count.\<close>

definition ring_inv :: "MTRingBuffer \<Rightarrow> bool" where
  "ring_inv b \<longleftrightarrow>
     0 \<le> mReadPosition b \<and> mReadPosition b < mTotalSize b \<and>
     mSlotSize b dvd mReadPosition b \<and>
     0 \<le> mWritePosition b \<and> mWritePosition b < mTotalSize b \<and>
     mSlotSize b dvd mWritePosition b \<and>
     0 \<le> mFullSlots b \<and> mFullSlots b \<le> mNumSlots b \<and>
     (mWritePosition b - mReadPosition b) mod mTotalSize b
       = (mFullSlots b * mSlotSize b) mod mTotalSize b"

text \<open>A well-formed object.\<close>

definition ring_wf :: "MTRingBuffer \<Rightarrow> bool" where
  "ring_wf b \<longleftrightarrow> ring_consts b \<and> ring_blocks b \<and> ring_inv b"

subsection \<open>The stored slots and sequences of calls\<close>

text \<open>The slot of \<open>n\<close> bytes that starts at byte offset \<open>p\<close> of a block.\<close>

definition slot_at :: "byte list \<Rightarrow> int \<Rightarrow> int \<Rightarrow> byte list" where
  "slot_at blk p n = take (nat n) (drop (nat p) blk)"

text \<open>
  The occupied slots, oldest first: the \<open>mFullSlots\<close> slots that start at
  \<open>mReadPosition\<close> and wrap around the end of the storage.
\<close>

definition slots_of :: "MTRingBuffer \<Rightarrow> byte list list" where
  "slots_of b =
     map (\<lambda>i. slot_at (mRingBuffer b)
                ((mReadPosition b + int i * mSlotSize b) mod mTotalSize b) (mSlotSize b))
       [0..<nat (mFullSlots b)]"

text \<open>
  One thread alone inserts a list of slots with \<^verbatim>\<open>insertSlotBlocking\<close>; no other
  thread runs, so a call that has to wait stays parked and the sequence yields \<open>None\<close>.
\<close>

fun insertSlots :: "MTRingBuffer \<Rightarrow> byte list list \<Rightarrow> MTRingBuffer option" where
  "insertSlots b [] = Some b"
| "insertSlots b (x # xs) =
     (case insertSlotBlocking [] b x of
        None \<Rightarrow> None
      | Some b' \<Rightarrow> insertSlots b' xs)"

text \<open>
  One thread alone reads \<open>k\<close> times with \<^verbatim>\<open>readSlotBlocking\<close> into the same
  block and records what the block holds after each call.
\<close>

fun readSlots ::
  "MTRingBuffer \<Rightarrow> nat \<Rightarrow> byte list \<Rightarrow> (MTRingBuffer \<times> byte list list) option" where
  "readSlots b 0 out = Some (b, [])"
| "readSlots b (Suc k) out =
     (case readSlotBlocking [] b out of
        None \<Rightarrow> None
      | Some (b', out') \<Rightarrow>
          (case readSlots b' k out' of
             None \<Rightarrow> None
           | Some (b'', outs) \<Rightarrow> Some (b'', out' # outs)))"

subsection \<open>What a parked call sees\<close>

text \<open>The object a parked call finds after \<open>k\<close> returns of \<^verbatim>\<open>wait\<close>.\<close>

definition after_wakes :: "wakes \<Rightarrow> nat \<Rightarrow> MTRingBuffer \<Rightarrow> MTRingBuffer" where
  "after_wakes ws k b = foldl (\<lambda>c w. w c) b (take k ws)"

text \<open>
  What a single consumer does between two returns of a producer's \<^verbatim>\<open>wait\<close>: it
  reads into the blocks \<open>qs\<close>, one call after the other (none for a spurious wake).
  Likewise for a single producer that inserts the slots \<open>xs\<close>.
\<close>

definition reads_by_consumer :: "byte list list \<Rightarrow> MTRingBuffer \<Rightarrow> MTRingBuffer" where
  "reads_by_consumer qs c = foldl (\<lambda>c q. fst (readSlotNonBlocking c q)) c qs"

definition inserts_by_producer :: "byte list list \<Rightarrow> MTRingBuffer \<Rightarrow> MTRingBuffer" where
  "inserts_by_producer xs c = foldl insertSlotNonBlocking c xs"

subsection \<open>Example objects\<close>

text \<open>What a fresh block holds before it is cleared.\<close>

definition stale :: "nat \<Rightarrow> byte" where
  "stale i = 255"

text \<open>One-byte slots, two of them, as the constructor leaves the object.\<close>

definition ex_fresh :: MTRingBuffer where
  "ex_fresh = \<lparr> mSlotSize = 1, mNumSlots = 2, mTotalSize = 2,
                mReadPosition = 0, mWritePosition = 1, mFullSlots = 1,
                mRingBuffer = [0, 0], mLastReadSlot = [0] \<rparr>"

text \<open>The same object with both slots occupied.\<close>

definition ex_full :: MTRingBuffer where
  "ex_full = \<lparr> mSlotSize = 1, mNumSlots = 2, mTotalSize = 2,
               mReadPosition = 0, mWritePosition = 0, mFullSlots = 2,
               mRingBuffer = [5, 6], mLastReadSlot = [0] \<rparr>"


text \<open>One-byte slots, three of them, drained by the consumer.\<close>

definition ex_drained :: MTRingBuffer where
  "ex_drained = \<lparr> mSlotSize = 1, mNumSlots = 3, mTotalSize = 3,
                  mReadPosition = 2, mWritePosition = 2, mFullSlots = 0,
                  mRingBuffer = [0, 7, 0], mLastReadSlot = [7] \<rparr>"


text \<open>A single one-byte slot, occupied.\<close>

definition ex_single :: MTRingBuffer where
  "ex_single = \<lparr> mSlotSize = 1, mNumSlots = 1, mTotalSize = 1,
                 mReadPosition = 0, mWritePosition = 0, mFullSlots = 1,
                 mRingBuffer = [5], mLastReadSlot = [0] \<rparr>"

section \<open>Arithmetic of the positions\<close>

lemma wrap_int_id: "INT_MIN \<le> x \<Longrightarrow> x \<le> INT_MAX \<Longrightarrow> wrap_int x = x"
  by (simp add: wrap_int_def INT_MIN_def INT_MAX_def)

lemma int_add_id: "INT_MIN \<le> a + b \<Longrightarrow> a + b \<le> INT_MAX \<Longrightarrow> int_add a b = a + b"
  by (simp add: int_add_def wrap_int_id)

lemma int_sub_id: "INT_MIN \<le> a - b \<Longrightarrow> a - b \<le> INT_MAX \<Longrightarrow> int_sub a b = a - b"
  by (simp add: int_sub_def wrap_int_id)

lemma int_mul_id: "INT_MIN \<le> a * b \<Longrightarrow> a * b \<le> INT_MAX \<Longrightarrow> int_mul a b = a * b"
  by (simp add: int_mul_def wrap_int_id)

lemma int_nonneg_id:
  assumes "0 \<le> x" and "x \<le> INT_MAX"
  shows "INT_MIN \<le> x"
  using assms by (simp add: INT_MIN_def)

lemma sdiv_nonneg_eq: "0 \<le> a \<Longrightarrow> 0 < b \<Longrightarrow> a sdiv b = a div (b::int)"
  by (simp add: signed_divide_int_def sgn_if)

lemma smod_nonneg_eq: "0 \<le> a \<Longrightarrow> 0 < b \<Longrightarrow> a smod b = a mod (b::int)"
  by (simp add: smod_mod_positive)

lemma half_slots_bound:
  assumes "0 < s" "0 < (n::int)"
  shows "0 \<le> (n div 2) * s" and "(n div 2) * s < s * n"
proof -
  have h: "0 \<le> n div 2" "n div 2 < n" using assms by auto
  show "0 \<le> (n div 2) * s" using h assms by simp
  have "(n div 2) * s < n * s" using h assms by (simp add: mult_strict_right_mono)
  then show "(n div 2) * s < s * n" by (simp add: mult.commute)
qed

lemma pos_step:
  assumes "0 < s" "0 < (n::int)" "0 \<le> p" "p < s * n" "s dvd p" "0 \<le> d"
  shows "(p + d * s) smod (s * n) = (p + d * s) mod (s * n)"
    and "0 \<le> (p + d * s) mod (s * n)"
    and "(p + d * s) mod (s * n) < s * n"
    and "s dvd (p + d * s) mod (s * n)"
proof -
  have T: "0 < s * n" using assms by simp
  have nn: "0 \<le> p + d * s" using assms by simp
  show "(p + d * s) smod (s * n) = (p + d * s) mod (s * n)"
    using nn T by (rule smod_nonneg_eq)
  show "0 \<le> (p + d * s) mod (s * n)" using T by simp
  show "(p + d * s) mod (s * n) < s * n" using T by simp
  have "s dvd p + d * s" using assms by simp
  then show "s dvd (p + d * s) mod (s * n)" by (simp add: dvd_mod)
qed

lemma cong_write:
  assumes "(w - r) mod T = (f * s) mod (T::int)"
  shows "((w + s) mod T - r) mod T = ((f + 1) * s) mod T"
proof -
  have "((w + s) mod T - r) mod T = ((w - r) + s) mod T"
    by (simp add: mod_diff_left_eq algebra_simps)
  also have "\<dots> = ((w - r) mod T + s) mod T" by (simp add: mod_add_left_eq)
  also have "\<dots> = ((f * s) mod T + s) mod T" using assms by simp
  also have "\<dots> = (f * s + s) mod T" by (simp add: mod_add_left_eq)
  finally show ?thesis by (simp add: algebra_simps)
qed

lemma cong_read:
  assumes "(w - r) mod T = (f * s) mod (T::int)"
  shows "(w - (r + d * s) mod T) mod T = ((f - d) * s) mod T"
proof -
  have "(w - (r + d * s) mod T) mod T = ((w - r) - d * s) mod T"
    by (simp add: mod_diff_right_eq algebra_simps)
  also have "\<dots> = ((w - r) mod T - d * s) mod T" by (simp add: mod_diff_left_eq)
  also have "\<dots> = ((f * s) mod T - d * s) mod T" using assms by simp
  also have "\<dots> = (f * s - d * s) mod T" by (simp add: mod_diff_left_eq)
  finally show ?thesis by (simp add: algebra_simps)
qed

section \<open>Range of the computed values\<close>

text \<open>
  In an object with the invariant every value an operation computes lies between
  \<open>-1\<close> and one and a half times \<open>mTotalSize\<close>. All of them are values of type
  \<^verbatim>\<open>int\<close> but one: the sum \<open>mReadPosition + (mNumSlots / 2) * mSlotSize\<close> of the
  overflow recovery can exceed \<open>INT_MAX\<close>.
\<close>

lemma slot_start_fits:
  assumes "0 < s" and "0 < (n::int)" and "0 \<le> p" and "p < s * n" and "s dvd p"
  shows "p + s \<le> s * n"
proof -
  from assms(5) obtain k where k: "p = s * k" by (auto simp: dvd_def)
  have "k < n"
  proof (rule ccontr)
    assume "\<not> k < n"
    then have "s * n \<le> s * k" using assms(1) by (simp add: mult_left_mono)
    then show False using assms(4) k by simp
  qed
  then have "s * (k + 1) \<le> s * n" using assms(1) by (simp add: mult_left_mono)
  then show ?thesis by (simp add: k algebra_simps)
qed

lemma computed_values_range:
  assumes "ring_consts b" and "ring_inv b"
  shows "0 \<le> mWritePosition b + mSlotSize b"
    and "mWritePosition b + mSlotSize b \<le> mTotalSize b"
    and "0 \<le> mReadPosition b + mSlotSize b"
    and "mReadPosition b + mSlotSize b \<le> mTotalSize b"
    and "0 \<le> (mNumSlots b sdiv 2) * mSlotSize b"
    and "2 * ((mNumSlots b sdiv 2) * mSlotSize b) \<le> mTotalSize b"
    and "0 \<le> mReadPosition b + (mNumSlots b sdiv 2) * mSlotSize b"
    and "2 * (mReadPosition b + (mNumSlots b sdiv 2) * mSlotSize b) < 3 * mTotalSize b"
    and "- 1 \<le> mFullSlots b - 1" and "mFullSlots b + 1 \<le> mTotalSize b + 1"
proof -
  let ?s = "mSlotSize b" and ?n = "mNumSlots b" and ?r = "mReadPosition b"
  let ?w = "mWritePosition b"
  have s: "0 < ?s" and n: "0 < ?n" and T: "mTotalSize b = ?s * ?n"
    using assms(1) by (simp_all add: ring_consts_def)
  have r: "0 \<le> ?r" "?r < ?s * ?n" "?s dvd ?r"
    and w: "0 \<le> ?w" "?w < ?s * ?n" "?s dvd ?w"
    and fl: "0 \<le> mFullSlots b" "mFullSlots b \<le> ?n"
    using assms(2) T by (simp_all add: ring_inv_def)
  have h: "?n sdiv 2 = ?n div 2" using n by (simp add: sdiv_nonneg_eq)
  have h0: "0 \<le> ?n div 2" and h2: "2 * (?n div 2) \<le> ?n" using n by simp_all
  have hs0: "0 \<le> (?n div 2) * ?s" using h0 s by simp
  have "2 * ((?n div 2) * ?s) = (2 * (?n div 2)) * ?s" by simp
  also have "\<dots> \<le> ?n * ?s" using h2 s by (intro mult_right_mono) simp_all
  finally have hs: "2 * ((?n div 2) * ?s) \<le> ?s * ?n" by (simp add: mult.commute)
  have nT: "?n \<le> ?s * ?n" using s n by simp
  show "0 \<le> ?w + ?s" "0 \<le> ?r + ?s" using s r w by simp_all
  show "?w + ?s \<le> mTotalSize b" using slot_start_fits [OF s n w] by (simp add: T)
  show "?r + ?s \<le> mTotalSize b" using slot_start_fits [OF s n r] by (simp add: T)
  show "0 \<le> (?n sdiv 2) * ?s" using hs0 by (simp add: h)
  show "2 * ((?n sdiv 2) * ?s) \<le> mTotalSize b" using hs by (simp add: h T)
  show "0 \<le> ?r + (?n sdiv 2) * ?s" using hs0 r by (simp add: h)
  show "2 * (?r + (?n sdiv 2) * ?s) < 3 * mTotalSize b"
    using hs r(2) by (simp add: h T)
  show "- 1 \<le> mFullSlots b - 1" using fl by simp
  show "mFullSlots b + 1 \<le> mTotalSize b + 1" using fl nT by (simp add: T)
qed

lemma transfer_no_wrap:
  assumes "ring_consts b" and "ring_inv b"
  shows "int_add (mWritePosition b) (mSlotSize b) = mWritePosition b + mSlotSize b"
    and "int_add (mReadPosition b) (mSlotSize b) = mReadPosition b + mSlotSize b"
    and "mFullSlots b \<noteq> mNumSlots b \<Longrightarrow> int_add (mFullSlots b) 1 = mFullSlots b + 1"
    and "int_sub (mFullSlots b) 1 = mFullSlots b - 1"
    and "int_mul (mNumSlots b sdiv 2) (mSlotSize b) = (mNumSlots b div 2) * mSlotSize b"
    and "int_sub (mFullSlots b) (mNumSlots b sdiv 2) = mFullSlots b - mNumSlots b div 2"
    and "mReadPosition b + (mNumSlots b div 2) * mSlotSize b \<le> INT_MAX \<Longrightarrow>
         int_add (mReadPosition b) ((mNumSlots b div 2) * mSlotSize b)
           = mReadPosition b + (mNumSlots b div 2) * mSlotSize b"
proof -
  note rg = computed_values_range [OF assms]
  have n: "0 < mNumSlots b" and s: "0 < mSlotSize b"
    and T: "mTotalSize b = mSlotSize b * mNumSlots b" and M: "mTotalSize b \<le> INT_MAX"
    using assms(1) by (simp_all add: ring_consts_def)
  have fl: "0 \<le> mFullSlots b" "mFullSlots b \<le> mNumSlots b"
    using assms(2) by (simp_all add: ring_inv_def)
  have nT: "mNumSlots b \<le> mTotalSize b" using s n by (simp add: T)
  have h: "mNumSlots b sdiv 2 = mNumSlots b div 2" using n by (simp add: sdiv_nonneg_eq)
  have h0: "0 \<le> mNumSlots b div 2" "mNumSlots b div 2 \<le> mNumSlots b" using n by simp_all
  have M': "0 \<le> INT_MAX" "INT_MIN \<le> - 1" "INT_MIN \<le> 0" "INT_MIN \<le> - INT_MAX"
    by (simp_all add: INT_MAX_def INT_MIN_def)
  show "int_add (mWritePosition b) (mSlotSize b) = mWritePosition b + mSlotSize b"
    using rg(1,2) M M' by (intro int_add_id) linarith+
  show "int_add (mReadPosition b) (mSlotSize b) = mReadPosition b + mSlotSize b"
    using rg(3,4) M M' by (intro int_add_id) linarith+
  show "int_add (mFullSlots b) 1 = mFullSlots b + 1" if "mFullSlots b \<noteq> mNumSlots b"
    using that fl nT M M' by (intro int_add_id) linarith+
  show "int_sub (mFullSlots b) 1 = mFullSlots b - 1"
    using fl nT M M' by (intro int_sub_id) linarith+
  have hm: "0 \<le> (mNumSlots b div 2) * mSlotSize b"
    "2 * ((mNumSlots b div 2) * mSlotSize b) \<le> mTotalSize b"
    using rg(5,6) by (simp_all add: h)
  show "int_mul (mNumSlots b sdiv 2) (mSlotSize b) = (mNumSlots b div 2) * mSlotSize b"
    unfolding h using hm M M' by (intro int_mul_id) linarith+
  show "int_sub (mFullSlots b) (mNumSlots b sdiv 2) = mFullSlots b - mNumSlots b div 2"
    unfolding h using fl h0 nT M M' by (intro int_sub_id) linarith+
  show "int_add (mReadPosition b) ((mNumSlots b div 2) * mSlotSize b)
           = mReadPosition b + (mNumSlots b div 2) * mSlotSize b"
    if "mReadPosition b + (mNumSlots b div 2) * mSlotSize b \<le> INT_MAX"
    using that rg(7) M' by (intro int_add_id) (simp_all add: h)
qed

text \<open>The operations in plain arithmetic, where nothing wraps.\<close>

lemma insert_nb_open:
  assumes "ring_consts b" and "ring_inv b" and "mFullSlots b \<noteq> mNumSlots b"
  shows "insertSlotNonBlocking b p =
     b\<lparr> mRingBuffer := memcpy (mRingBuffer b) (mWritePosition b) p 0 (mSlotSize b),
        mWritePosition := (mWritePosition b + mSlotSize b) smod mTotalSize b,
        mFullSlots := mFullSlots b + 1 \<rparr>"
  using assms(3)
  by (simp add: insertSlotNonBlocking_def transfer_no_wrap [OF assms(1,2)])

lemma read_nb_open:
  assumes "ring_consts b" and "ring_inv b" and "mFullSlots b \<noteq> 0"
  shows "readSlotNonBlocking b q =
     (b\<lparr> mLastReadSlot :=
           memcpy (mLastReadSlot b) 0 (mRingBuffer b) (mReadPosition b) (mSlotSize b),
         mReadPosition := (mReadPosition b + mSlotSize b) smod mTotalSize b,
         mFullSlots := mFullSlots b - 1 \<rparr>,
      memcpy q 0 (mRingBuffer b) (mReadPosition b) (mSlotSize b))"
  using assms(3)
  by (simp add: readSlotNonBlocking_def transfer_no_wrap [OF assms(1,2)])

lemma overflowReset_open:
  assumes "ring_consts b" and "ring_inv b"
    and "mReadPosition b + (mNumSlots b div 2) * mSlotSize b \<le> INT_MAX"
  shows "overflowReset b =
     b\<lparr> mReadPosition :=
          (mReadPosition b + (mNumSlots b div 2) * mSlotSize b) smod mTotalSize b,
        mFullSlots := mFullSlots b - mNumSlots b div 2 \<rparr>"
  using transfer_no_wrap(7) [OF assms]
  by (simp add: overflowReset_def transfer_no_wrap(5,6) [OF assms(1,2)])


section \<open>Construction\<close>

lemma memset_whole: "length xs = nat n \<Longrightarrow> memset xs c n = replicate (nat n) c"
  by (simp add: memset_def)

lemma ctor_Inr:
  assumes "0 < SlotSize" and "0 < NumSlots" and "SlotSize * NumSlots \<le> INT_MAX"
  shows "MTRingBuffer_ctor (Some g) (Some h) SlotSize NumSlots =
           Inr \<lparr> mSlotSize = SlotSize, mNumSlots = NumSlots,
                 mTotalSize = SlotSize * NumSlots,
                 mReadPosition = 0,
                 mWritePosition = (NumSlots div 2) * SlotSize,
                 mFullSlots = NumSlots div 2,
                 mRingBuffer = replicate (nat (SlotSize * NumSlots)) 0,
                 mLastReadSlot = replicate (nat SlotSize) 0 \<rparr>"
proof -
  have tot: "0 < SlotSize * NumSlots" using assms by simp
  then have lo: "INT_MIN \<le> SlotSize * NumSlots" by (simp add: INT_MIN_def)
  have total: "int_mul SlotSize NumSlots = SlotSize * NumSlots"
    using lo assms(3) by (rule int_mul_id)
  have half: "NumSlots sdiv 2 = NumSlots div 2"
    using assms by (simp add: sdiv_nonneg_eq)
  note hb = half_slots_bound [OF assms(1,2)]
  have "INT_MIN \<le> (NumSlots div 2) * SlotSize" using hb(1) by (simp add: INT_MIN_def)
  moreover have "(NumSlots div 2) * SlotSize \<le> INT_MAX" using hb(2) assms(3) by simp
  ultimately have hm: "int_mul (NumSlots div 2) SlotSize = (NumSlots div 2) * SlotSize"
    by (rule int_mul_id)
  have wp: "((NumSlots div 2) * SlotSize) smod (SlotSize * NumSlots)
              = (NumSlots div 2) * SlotSize"
    using hb tot by (simp add: smod_nonneg_eq)
  have nneg: "\<not> SlotSize * NumSlots < 0" and nz: "SlotSize * NumSlots \<noteq> 0"
    and sn: "\<not> SlotSize < 0"
    using tot assms(1) by auto
  show ?thesis
    using assms(1,2)
    by (simp add: MTRingBuffer_ctor_def new_bytes_def memset_whole Let_def
        total hm nneg nz sn half wp)
qed




section \<open>The invariant\<close>

lemma ring_invI:
  assumes "0 \<le> mReadPosition b" "mReadPosition b < mTotalSize b"
    "mSlotSize b dvd mReadPosition b"
    "0 \<le> mWritePosition b" "mWritePosition b < mTotalSize b"
    "mSlotSize b dvd mWritePosition b"
    "0 \<le> mFullSlots b" "mFullSlots b \<le> mNumSlots b"
    "(mWritePosition b - mReadPosition b) mod mTotalSize b
       = (mFullSlots b * mSlotSize b) mod mTotalSize b"
  shows "ring_inv b"
  unfolding ring_inv_def using assms by blast

lemma overflowReset_inv:
  assumes c: "ring_consts b" and i: "ring_inv b" and f: "mFullSlots b = mNumSlots b"
    and room: "mReadPosition b + (mNumSlots b div 2) * mSlotSize b \<le> INT_MAX"
  shows "ring_consts (overflowReset b) \<and> ring_inv (overflowReset b)"
proof -
  let ?s = "mSlotSize b" and ?n = "mNumSlots b" and ?r = "mReadPosition b"
  let ?w = "mWritePosition b" and ?b = "overflowReset b"
  have s: "0 < ?s" and n: "0 < ?n" and T: "mTotalSize b = ?s * ?n"
    and M: "?s * ?n \<le> INT_MAX"
    using c by (simp_all add: ring_consts_def)
  have r: "0 \<le> ?r" "?r < ?s * ?n" "?s dvd ?r"
    and w: "0 \<le> ?w" "?w < ?s * ?n" "?s dvd ?w"
    and cg: "(?w - ?r) mod (?s * ?n) = (?n * ?s) mod (?s * ?n)"
    using i f T by (simp_all add: ring_inv_def)
  have h: "?n sdiv 2 = ?n div 2" using n by (simp add: sdiv_nonneg_eq)
  have h0: "0 \<le> ?n div 2" and hn: "0 \<le> ?n - ?n div 2" "?n - ?n div 2 \<le> ?n"
    using n by auto
  note ps = pos_step [OF s n r h0]
  have cg': "(?w - (?r + (?n div 2) * ?s) mod (?s * ?n)) mod (?s * ?n)
          = ((?n - ?n div 2) * ?s) mod (?s * ?n)"
    using cg by (rule cong_read)
  have fs: "mSlotSize ?b = ?s" "mNumSlots ?b = ?n" "mTotalSize ?b = ?s * ?n"
    "mWritePosition ?b = ?w" "mFullSlots ?b = ?n - ?n div 2"
    "mReadPosition ?b = (?r + (?n div 2) * ?s) mod (?s * ?n)"
    by (simp_all add: overflowReset_open [OF c i room] h T f ps(1))
  have "ring_consts ?b" using s n M by (simp add: ring_consts_def fs)
  moreover have "ring_inv ?b"
    by (rule ring_invI) (simp_all only: fs ps w hn cg')
  ultimately show ?thesis ..
qed

lemma insert_nb_inv:
  assumes c: "ring_consts b" and i: "ring_inv b"
    and room: "mFullSlots b \<noteq> mNumSlots b \<or>
               mReadPosition b + (mNumSlots b div 2) * mSlotSize b \<le> INT_MAX"
  shows "ring_consts (insertSlotNonBlocking b p) \<and> ring_inv (insertSlotNonBlocking b p)"
proof (cases "mFullSlots b = mNumSlots b")
  case True
  then show ?thesis
    using overflowReset_inv [OF c i True] room by (simp add: insertSlotNonBlocking_def)
next
  case False
  let ?s = "mSlotSize b" and ?n = "mNumSlots b" and ?r = "mReadPosition b"
  let ?w = "mWritePosition b" and ?f = "mFullSlots b" and ?b = "insertSlotNonBlocking b p"
  have s: "0 < ?s" and n: "0 < ?n" and T: "mTotalSize b = ?s * ?n"
    and M: "?s * ?n \<le> INT_MAX"
    using c by (simp_all add: ring_consts_def)
  have r: "0 \<le> ?r" "?r < ?s * ?n" "?s dvd ?r"
    and w: "0 \<le> ?w" "?w < ?s * ?n" "?s dvd ?w"
    and fl: "0 \<le> ?f" "?f \<le> ?n"
    and cg: "(?w - ?r) mod (?s * ?n) = (?f * ?s) mod (?s * ?n)"
    using i T by (simp_all add: ring_inv_def)
  have fl': "0 \<le> ?f + 1" "?f + 1 \<le> ?n" using fl False by auto
  have ps: "(?w + ?s) smod (?s * ?n) = (?w + ?s) mod (?s * ?n)"
       "0 \<le> (?w + ?s) mod (?s * ?n)" "(?w + ?s) mod (?s * ?n) < ?s * ?n"
       "?s dvd (?w + ?s) mod (?s * ?n)"
    using pos_step [OF s n w, of 1] by simp_all
  have cg': "((?w + ?s) mod (?s * ?n) - ?r) mod (?s * ?n) = ((?f + 1) * ?s) mod (?s * ?n)"
    using cg by (rule cong_write)
  have fs: "mSlotSize ?b = ?s" "mNumSlots ?b = ?n" "mTotalSize ?b = ?s * ?n"
    "mReadPosition ?b = ?r" "mFullSlots ?b = ?f + 1"
    "mWritePosition ?b = (?w + ?s) mod (?s * ?n)"
    by (simp_all add: insert_nb_open [OF c i False] T ps(1))
  have "ring_consts ?b" using s n M by (simp add: ring_consts_def fs)
  moreover have "ring_inv ?b"
    by (rule ring_invI) (simp_all only: fs ps r fl' cg')
  ultimately show ?thesis ..
qed

lemma read_nb_inv:
  assumes c: "ring_consts b" and i: "ring_inv b"
  shows "ring_consts (fst (readSlotNonBlocking b q)) \<and> ring_inv (fst (readSlotNonBlocking b q))"
proof (cases "mFullSlots b = 0")
  case True
  then show ?thesis using c i
    by (simp add: readSlotNonBlocking_def underrunReset_def ring_consts_def ring_inv_def)
next
  case False
  let ?s = "mSlotSize b" and ?n = "mNumSlots b" and ?r = "mReadPosition b"
  let ?w = "mWritePosition b" and ?f = "mFullSlots b"
  let ?b = "fst (readSlotNonBlocking b q)"
  have s: "0 < ?s" and n: "0 < ?n" and T: "mTotalSize b = ?s * ?n"
    and M: "?s * ?n \<le> INT_MAX"
    using c by (simp_all add: ring_consts_def)
  have r: "0 \<le> ?r" "?r < ?s * ?n" "?s dvd ?r"
    and w: "0 \<le> ?w" "?w < ?s * ?n" "?s dvd ?w"
    and fl: "0 \<le> ?f" "?f \<le> ?n"
    and cg: "(?w - ?r) mod (?s * ?n) = (?f * ?s) mod (?s * ?n)"
    using i T by (simp_all add: ring_inv_def)
  have fl': "0 \<le> ?f - 1" "?f - 1 \<le> ?n" using fl False by auto
  have ps: "(?r + ?s) smod (?s * ?n) = (?r + ?s) mod (?s * ?n)"
       "0 \<le> (?r + ?s) mod (?s * ?n)" "(?r + ?s) mod (?s * ?n) < ?s * ?n"
       "?s dvd (?r + ?s) mod (?s * ?n)"
    using pos_step [OF s n r, of 1] by simp_all
  have cg': "(?w - (?r + ?s) mod (?s * ?n)) mod (?s * ?n) = ((?f - 1) * ?s) mod (?s * ?n)"
    using cong_read [OF cg, of 1] by simp
  have fs: "mSlotSize ?b = ?s" "mNumSlots ?b = ?n" "mTotalSize ?b = ?s * ?n"
    "mWritePosition ?b = ?w" "mFullSlots ?b = ?f - 1"
    "mReadPosition ?b = (?r + ?s) mod (?s * ?n)"
    by (simp_all add: read_nb_open [OF c i False] T ps(1))
  have "ring_consts ?b" using s n M by (simp add: ring_consts_def fs)
  moreover have "ring_inv ?b"
    by (rule ring_invI) (simp_all only: fs ps w fl' cg')
  ultimately show ?thesis ..
qed

lemma insertSlotBlocking_ready:
  "mFullSlots b \<noteq> mNumSlots b \<Longrightarrow>
   insertSlotBlocking ws b p = Some (insertSlotNonBlocking b p)"
  by (simp add: insertSlotBlocking.simps insertSlotNonBlocking_def)

lemma insertSlotBlocking_parked:
  "mFullSlots b = mNumSlots b \<Longrightarrow> insertSlotBlocking [] b p = None"
  "mFullSlots b = mNumSlots b \<Longrightarrow>
   insertSlotBlocking (w # ws) b p = insertSlotBlocking ws (w b) p"
  by (simp_all add: insertSlotBlocking.simps)

lemma readSlotBlocking_ready:
  "mFullSlots b \<noteq> 0 \<Longrightarrow> readSlotBlocking ws b q = Some (readSlotNonBlocking b q)"
  by (simp add: readSlotBlocking.simps readSlotNonBlocking_def)

lemma readSlotBlocking_parked:
  "mFullSlots b = 0 \<Longrightarrow> readSlotBlocking [] b q = None"
  "mFullSlots b = 0 \<Longrightarrow> readSlotBlocking (w # ws) b q = readSlotBlocking ws (w b) q"
  by (simp_all add: readSlotBlocking.simps)





lemmas run_defs =
  insertSlotNonBlocking_def readSlotNonBlocking_def overflowReset_def underrunReset_def
  setUnderrunReadSlot_def memcpy_def memset_def
  int_add_def int_sub_def int_mul_def wrap_int_def
  signed_divide_int_def signed_modulo_int_def

lemmas inv_defs = ring_consts_def ring_blocks_def ring_inv_def INT_MAX_def




section \<open>Overflow and underrun\<close>





text \<open>
  C4. With \<open>mFullSlots = 0\<close>, a non-blocking read sets the first \<open>mSlotSize\<close> bytes
  of the caller's block to zero and leaves the rest of the block alone (a block of
  exactly \<open>mSlotSize\<close> bytes is all zero afterwards), turns the storage into
  \<open>mTotalSize\<close> zero bytes, and leaves \<open>mFullSlots\<close> at 0.
\<close>

theorem underrun_read:
  assumes "mFullSlots b = 0" and "ring_blocks b"
  shows "snd (readSlotNonBlocking b out)
           = replicate (nat (mSlotSize b)) 0 @ drop (nat (mSlotSize b)) out \<and>
         (length out = nat (mSlotSize b) \<longrightarrow>
            snd (readSlotNonBlocking b out) = replicate (nat (mSlotSize b)) 0) \<and>
         mRingBuffer (fst (readSlotNonBlocking b out)) = replicate (nat (mTotalSize b)) 0 \<and>
         mFullSlots (fst (readSlotNonBlocking b out)) = 0"
  using assms
  by (simp add: readSlotNonBlocking_def setUnderrunReadSlot_def underrunReset_def
      memset_def ring_blocks_def)

theorem underrun_read_witness:
  "mFullSlots ex_drained = 0 \<and> ring_blocks ex_drained \<and>
   length [8 :: byte] = nat (mSlotSize ex_drained) \<and>
   snd (readSlotNonBlocking ex_drained [8]) = [0] \<and>
   mRingBuffer (fst (readSlotNonBlocking ex_drained [8])) = [0, 0, 0] \<and>
   mFullSlots (fst (readSlotNonBlocking ex_drained [8])) = 0"
proof -
  have f: "mFullSlots ex_drained = 0" and k: "ring_blocks ex_drained"
    by (simp_all add: ex_drained_def ring_blocks_def)
  have l: "length [8 :: byte] = nat (mSlotSize ex_drained)"
    by (simp add: ex_drained_def)
  show ?thesis
    using underrun_read [OF f k, of "[8]"] f k l
    by (simp add: ex_drained_def numeral_3_eq_3)
qed

text \<open>
  C9. With \<open>mFullSlots = 0\<close>, a non-blocking read changes nothing of the object but
  the storage: the positions, the slot count, the last-read slot and the constants are
  as before, while the storage of a well-formed object becomes all zero. There are
  well-formed objects on which both positions are non-zero after the call.
\<close>

theorem underrun_frame:
  "(mFullSlots b = 0 \<longrightarrow>
      mReadPosition (fst (readSlotNonBlocking b out)) = mReadPosition b \<and>
      mWritePosition (fst (readSlotNonBlocking b out)) = mWritePosition b \<and>
      mFullSlots (fst (readSlotNonBlocking b out)) = mFullSlots b \<and>
      mLastReadSlot (fst (readSlotNonBlocking b out)) = mLastReadSlot b \<and>
      mSlotSize (fst (readSlotNonBlocking b out)) = mSlotSize b \<and>
      mNumSlots (fst (readSlotNonBlocking b out)) = mNumSlots b \<and>
      mTotalSize (fst (readSlotNonBlocking b out)) = mTotalSize b \<and>
      (ring_blocks b \<longrightarrow>
         mRingBuffer (fst (readSlotNonBlocking b out)) = replicate (nat (mTotalSize b)) 0)) \<and>
   (\<exists>c. ring_consts c \<and> ring_blocks c \<and> ring_inv c \<and> mFullSlots c = 0 \<and>
        mReadPosition (fst (readSlotNonBlocking c out)) \<noteq> 0 \<and>
        mWritePosition (fst (readSlotNonBlocking c out)) \<noteq> 0 \<and>
        mRingBuffer (fst (readSlotNonBlocking c out)) = replicate (nat (mTotalSize c)) 0)"
proof (intro conjI impI)
  show "\<exists>c. ring_consts c \<and> ring_blocks c \<and> ring_inv c \<and> mFullSlots c = 0 \<and>
        mReadPosition (fst (readSlotNonBlocking c out)) \<noteq> 0 \<and>
        mWritePosition (fst (readSlotNonBlocking c out)) \<noteq> 0 \<and>
        mRingBuffer (fst (readSlotNonBlocking c out)) = replicate (nat (mTotalSize c)) 0"
    by (rule exI [of _ ex_drained])
       (simp add: ex_drained_def inv_defs readSlotNonBlocking_def underrunReset_def
          memset_def)
qed (simp_all add: readSlotNonBlocking_def underrunReset_def memset_def ring_blocks_def)

theorem underrun_frame_witness:
  "mFullSlots ex_drained = 0 \<and> ring_blocks ex_drained \<and>
   mReadPosition (fst (readSlotNonBlocking ex_drained [8])) = 2 \<and>
   mWritePosition (fst (readSlotNonBlocking ex_drained [8])) = 2 \<and>
   mFullSlots (fst (readSlotNonBlocking ex_drained [8])) = 0 \<and>
   mLastReadSlot (fst (readSlotNonBlocking ex_drained [8])) = [7] \<and>
   mRingBuffer ex_drained = [0, 7, 0] \<and>
   mRingBuffer (fst (readSlotNonBlocking ex_drained [8])) = [0, 0, 0]"
proof -
  have f: "mFullSlots ex_drained = 0" and k: "ring_blocks ex_drained"
    by (simp_all add: ex_drained_def ring_blocks_def)
  show ?thesis
    using underrun_frame [of ex_drained "[8]"] f k
    by (simp add: ex_drained_def numeral_3_eq_3)
qed

text \<open>
  C10. In a well-formed object with a single slot that is occupied, overflow recovery
  changes nothing, a non-blocking insert returns the object as it was, and so does
  any sequence of non-blocking inserts: the object stays full.
\<close>

theorem single_slot_overflow:
  assumes "ring_consts b" and "ring_inv b" and "mNumSlots b = 1" and "mFullSlots b = 1"
  shows "overflowReset b = b \<and>
         insertSlotNonBlocking b slot = b \<and>
         foldl insertSlotNonBlocking b slots = b \<and>
         mFullSlots (foldl insertSlotNonBlocking b slots) = mNumSlots b"
proof -
  have T: "0 < mTotalSize b" "mTotalSize b \<le> INT_MAX"
    using assms(1) by (simp_all add: ring_consts_def)
  have r: "0 \<le> mReadPosition b" "mReadPosition b < mTotalSize b"
    using assms(2) by (simp_all add: ring_inv_def)
  have md: "mReadPosition b smod mTotalSize b = mReadPosition b"
    using r T by (simp add: smod_nonneg_eq)
  have "mReadPosition b + (mNumSlots b div 2) * mSlotSize b \<le> INT_MAX"
    using r T assms(3) by simp
  from overflowReset_open [OF assms(1,2) this]
  have o: "overflowReset b = b"
    using assms(3) md by simp
  have one: "insertSlotNonBlocking b x = b" for x
    using o assms(3,4) by (simp add: insertSlotNonBlocking_def)
  have all: "foldl insertSlotNonBlocking b slots = b"
    by (induction slots) (simp_all add: one)
  show ?thesis using o one all assms(3,4) by simp
qed

theorem single_slot_overflow_witness:
  "ring_consts ex_single \<and> ring_inv ex_single \<and>
   mNumSlots ex_single = 1 \<and> mFullSlots ex_single = 1 \<and>
   overflowReset ex_single = ex_single \<and>
   insertSlotNonBlocking ex_single [9] = ex_single \<and>
   foldl insertSlotNonBlocking ex_single [[1], [2], [3]] = ex_single \<and>
   mFullSlots (foldl insertSlotNonBlocking ex_single [[1], [2], [3]]) = mNumSlots ex_single"
proof -
  have c: "ring_consts ex_single" and i: "ring_inv ex_single"
    and n: "mNumSlots ex_single = 1" and f: "mFullSlots ex_single = 1"
    by (simp_all add: ex_single_def inv_defs)
  show ?thesis
    using single_slot_overflow [OF c i n f, of "[9]" "[[1], [2], [3]]"] c i n f
    by simp
qed

section \<open>Slots in the storage\<close>

lemma slice_memcpy_same:
  assumes "Q \<le> length blk" and "S \<le> length x"
  shows "take S (drop Q (take Q blk @ take S x @ rest)) = take S x"
  using assms by simp

lemma slice_memcpy_before:
  assumes "P + S \<le> Q" and "Q \<le> length blk"
  shows "take S (drop P (take Q blk @ rest)) = take S (drop P blk)"
proof -
  have "drop P (take Q blk @ rest) = drop P (take Q blk) @ rest"
    using assms by simp
  moreover have "S \<le> length (drop P (take Q blk))" using assms by simp
  ultimately have "take S (drop P (take Q blk @ rest)) = take S (drop P (take Q blk))"
    by simp
  also have "\<dots> = take S (take (Q - P) (drop P blk))" by (simp add: drop_take)
  also have "\<dots> = take S (drop P blk)" using assms by (simp add: min_def)
  finally show ?thesis .
qed

lemma slice_memcpy_after:
  assumes "Q + S \<le> P" and "Q + S \<le> length blk" and "S \<le> length x"
  shows "take S' (drop P (take Q blk @ take S x @ drop (Q + S) blk)) = take S' (drop P blk)"
proof -
  have q: "min (length blk) Q = Q" and s: "min (length x) S = S"
    using assms by simp_all
  have "drop P (take Q blk @ take S x @ drop (Q + S) blk)
          = drop (P - Q - S) (drop (Q + S) blk)"
    using assms(1) by (simp add: q s)
  also have "\<dots> = drop P blk" using assms(1) by simp
  finally show ?thesis by simp
qed

lemma slot_bounds:
  assumes "0 < s" and "0 \<le> c" and "c < (n::int)"
  shows "nat (s * c) + nat s \<le> nat (s * n)" and "0 \<le> s * c" and "s * c < s * n"
proof -
  have "s * c + s = s * (c + 1)" by (simp add: algebra_simps)
  also have "\<dots> \<le> s * n" using assms by (simp add: mult_left_mono)
  finally have le: "s * c + s \<le> s * n" .
  show "0 \<le> s * c" using assms by simp
  then show "nat (s * c) + nat s \<le> nat (s * n)" using le assms(1) by linarith
  show "s * c < s * n" using le assms(1) by linarith
qed

lemma slot_apart:
  assumes "0 < s" and "0 \<le> a" and "a < (c::int)"
  shows "nat (s * a) + nat s \<le> nat (s * c)"
proof -
  have "s * a + s = s * (a + 1)" by (simp add: algebra_simps)
  also have "\<dots> \<le> s * c" using assms by (simp add: mult_left_mono)
  finally have "s * a + s \<le> s * c" .
  moreover have "0 \<le> s * a" using assms by simp
  ultimately show ?thesis using assms(1) by linarith
qed

lemma memcpy_from_start:
  "memcpy blk i x 0 n = take (nat i) blk @ take (nat n) x @ drop (nat i + nat n) blk"
  by (simp add: memcpy_def)

lemma length_memcpy_slot:
  assumes "0 < s" and "0 \<le> c" and "c < n" and "length blk = nat (s * n)"
    and "nat s \<le> length x"
  shows "length (memcpy blk (s * c) x 0 s) = length blk"
proof -
  have "nat (s * c) + nat s \<le> length blk"
    using slot_bounds(1) [OF assms(1-3)] assms(4) by simp
  then show ?thesis
    using assms(5) by (simp add: memcpy_from_start)
qed

lemma slot_at_write_same:
  assumes "0 < s" and "0 \<le> c" and "c < n" and "length blk = nat (s * n)"
    and "nat s \<le> length x"
  shows "slot_at (memcpy blk (s * c) x 0 s) (s * c) s = take (nat s) x"
proof -
  have "nat (s * c) \<le> length blk"
    using slot_bounds(1) [OF assms(1-3)] assms(4) by simp
  then show ?thesis
    unfolding slot_at_def memcpy_from_start
    using assms(5) by (rule slice_memcpy_same)
qed

lemma slot_at_write_other:
  assumes "0 < s" and "0 \<le> c" and "c < n" and "0 \<le> a" and "a < n" and "a \<noteq> c"
    and "length blk = nat (s * n)" and "nat s \<le> length x"
  shows "slot_at (memcpy blk (s * c) x 0 s) (s * a) s = slot_at blk (s * a) s"
proof -
  have qb: "nat (s * c) + nat s \<le> length blk"
    using slot_bounds(1) [OF assms(1-3)] assms(7) by simp
  consider "a < c" | "c < a" using assms(6) by linarith
  then show ?thesis
  proof cases
    case 1
    have "nat (s * a) + nat s \<le> nat (s * c)" by (rule slot_apart [OF assms(1,4) 1])
    moreover have "nat (s * c) \<le> length blk" using qb by simp
    ultimately show ?thesis
      unfolding slot_at_def memcpy_from_start by (rule slice_memcpy_before)
  next
    case 2
    have "nat (s * c) + nat s \<le> nat (s * a)" by (rule slot_apart [OF assms(1,2) 2])
    then show ?thesis
      unfolding slot_at_def memcpy_from_start
      using qb assms(8) by (rule slice_memcpy_after)
  qed
qed

lemma slot_pos:
  "(s * k + i * s) mod (s * n) = s * ((k + i) mod (n::int))"
  by (simp add: mult_mod_right algebra_simps)

lemma slot_idx_distinct:
  assumes "0 \<le> i" and "i < j" and "j < (n::int)"
  shows "(k + i) mod n \<noteq> (k + j) mod n"
proof
  assume "(k + i) mod n = (k + j) mod n"
  then have "(k + j) mod n = (k + i) mod n" by simp
  then have "n dvd (k + j) - (k + i)" by (simp only: mod_eq_dvd_iff)
  then have "n dvd j - i" by simp
  moreover have "0 < j - i" "j - i < n" using assms by simp_all
  ultimately show False using zdvd_not_zless by blast
qed

text \<open>What a well-formed object gives: both positions are slot indices times the slot
  size, and the write position is \<open>mFullSlots\<close> slots ahead of the read position.\<close>

lemma ring_wf_unpack:
  assumes "ring_wf b"
  obtains kr where
    "0 < mSlotSize b" "0 < mNumSlots b" "mTotalSize b = mSlotSize b * mNumSlots b"
    "length (mRingBuffer b) = nat (mSlotSize b * mNumSlots b)"
    "length (mLastReadSlot b) = nat (mSlotSize b)"
    "0 \<le> mFullSlots b" "mFullSlots b \<le> mNumSlots b"
    "mReadPosition b = mSlotSize b * kr" "0 \<le> kr" "kr < mNumSlots b"
    "mWritePosition b = mSlotSize b * ((kr + mFullSlots b) mod mNumSlots b)"
proof -
  let ?s = "mSlotSize b" and ?n = "mNumSlots b" and ?r = "mReadPosition b"
  let ?w = "mWritePosition b" and ?f = "mFullSlots b" and ?T = "mTotalSize b"
  have s: "0 < ?s" and n: "0 < ?n" and T: "?T = ?s * ?n"
    using assms by (simp_all add: ring_wf_def ring_consts_def)
  have len: "length (mRingBuffer b) = nat (?s * ?n)" "length (mLastReadSlot b) = nat ?s"
    using assms T by (simp_all add: ring_wf_def ring_blocks_def)
  have r: "0 \<le> ?r" "?r < ?s * ?n" "?s dvd ?r"
    and w: "0 \<le> ?w" "?w < ?s * ?n"
    and fl: "0 \<le> ?f" "?f \<le> ?n"
    and cg: "(?w - ?r) mod (?s * ?n) = (?f * ?s) mod (?s * ?n)"
    using assms T by (simp_all add: ring_wf_def ring_inv_def)
  define kr where "kr = ?r div ?s"
  have rk: "?r = ?s * kr" using r(3) by (simp add: kr_def)
  have k0: "0 \<le> kr" using r(1) s by (simp add: kr_def pos_imp_zdiv_nonneg_iff)
  have kn: "kr < ?n"
  proof (rule ccontr)
    assume "\<not> kr < ?n"
    then have "?s * ?n \<le> ?s * kr" using s by (simp add: mult_left_mono)
    then show False using r(2) rk by simp
  qed
  have "?w = ?w mod (?s * ?n)" using w by simp
  also have "\<dots> = ((?w - ?r) + ?r) mod (?s * ?n)" by simp
  also have "\<dots> = ((?w - ?r) mod (?s * ?n) + ?r) mod (?s * ?n)"
    by (simp only: mod_add_left_eq)
  also have "\<dots> = ((?f * ?s) mod (?s * ?n) + ?r) mod (?s * ?n)" by (simp only: cg)
  also have "\<dots> = (?f * ?s + ?r) mod (?s * ?n)" by (simp only: mod_add_left_eq)
  also have "\<dots> = (?s * kr + ?f * ?s) mod (?s * ?n)" by (simp add: rk add.commute)
  also have "\<dots> = ?s * ((kr + ?f) mod ?n)" by (rule slot_pos)
  finally have wk: "?w = ?s * ((kr + ?f) mod ?n)" .
  show ?thesis using that [OF s n T len fl rk k0 kn wk] .
qed

lemma slots_of_pos:
  assumes "mReadPosition b = mSlotSize b * kr"
    and "mTotalSize b = mSlotSize b * mNumSlots b"
  shows "slots_of b =
           map (\<lambda>i. slot_at (mRingBuffer b)
                      (mSlotSize b * ((kr + int i) mod mNumSlots b)) (mSlotSize b))
             [0..<nat (mFullSlots b)]"
  by (simp add: slots_of_def assms slot_pos)

lemma ring_wfI: "ring_consts b \<Longrightarrow> ring_blocks b \<Longrightarrow> ring_inv b \<Longrightarrow> ring_wf b"
  by (simp add: ring_wf_def)

text \<open>An insert into an object that is not full appends the slot to the stored ones.\<close>

lemma insert_nb_slots:
  assumes wf: "ring_wf b" and nf: "mFullSlots b \<noteq> mNumSlots b"
    and lx: "nat (mSlotSize b) \<le> length x"
  shows "ring_wf (insertSlotNonBlocking b x)"
    and "slots_of (insertSlotNonBlocking b x) = slots_of b @ [take (nat (mSlotSize b)) x]"
    and "mFullSlots (insertSlotNonBlocking b x) = mFullSlots b + 1"
    and "mSlotSize (insertSlotNonBlocking b x) = mSlotSize b"
    and "mNumSlots (insertSlotNonBlocking b x) = mNumSlots b"
    and "mLastReadSlot (insertSlotNonBlocking b x) = mLastReadSlot b"
proof -
  let ?s = "mSlotSize b" and ?n = "mNumSlots b" and ?f = "mFullSlots b"
  let ?b = "insertSlotNonBlocking b x"
  from wf obtain kr where
    s: "0 < ?s" and n: "0 < ?n" and T: "mTotalSize b = ?s * ?n"
    and len: "length (mRingBuffer b) = nat (?s * ?n)"
    and lenl: "length (mLastReadSlot b) = nat ?s"
    and f0: "0 \<le> ?f" and fn: "?f \<le> ?n"
    and rk: "mReadPosition b = ?s * kr" and k0: "0 \<le> kr" and kn: "kr < ?n"
    and wk: "mWritePosition b = ?s * ((kr + ?f) mod ?n)"
    by (rule ring_wf_unpack)
  let ?c = "(kr + ?f) mod ?n"
  have ci: "ring_consts b" and vi: "ring_inv b" using wf by (simp_all add: ring_wf_def)
  have c0: "0 \<le> ?c" and cn: "?c < ?n" using n by simp_all
  have flt: "?f < ?n" using fn nf by simp
  have ring': "mRingBuffer ?b = memcpy (mRingBuffer b) (?s * ?c) x 0 ?s"
    and rest: "mReadPosition ?b = ?s * kr" "mTotalSize ?b = ?s * ?n"
      "mSlotSize ?b = ?s" "mNumSlots ?b = ?n" "mFullSlots ?b = ?f + 1"
      "mLastReadSlot ?b = mLastReadSlot b"
    by (simp_all add: insert_nb_open [OF ci vi nf] wk rk T)
  have "ring_blocks ?b"
    using length_memcpy_slot [OF s c0 cn len lx] len lenl
    by (simp add: ring_blocks_def ring' rest)
  moreover have "ring_consts ?b" "ring_inv ?b"
    using insert_nb_inv [OF ci vi, of x] nf by simp_all
  ultimately show "ring_wf ?b" by (simp add: ring_wf_def)
  have old: "slot_at (mRingBuffer ?b) (?s * ((kr + int i) mod ?n)) ?s
               = slot_at (mRingBuffer b) (?s * ((kr + int i) mod ?n)) ?s"
    if "i < nat ?f" for i
  proof -
    have "0 \<le> int i" "int i < ?f" using that by simp_all
    then have "(kr + int i) mod ?n \<noteq> ?c"
      using slot_idx_distinct [of "int i" ?f ?n kr] flt by simp
    moreover have "0 \<le> (kr + int i) mod ?n" "(kr + int i) mod ?n < ?n"
      using n by simp_all
    ultimately show ?thesis
      unfolding ring' using slot_at_write_other [OF s c0 cn _ _ _ len lx] by blast
  qed
  have new: "slot_at (mRingBuffer ?b) (?s * ((kr + int (nat ?f)) mod ?n)) ?s
               = take (nat ?s) x"
    unfolding ring' using slot_at_write_same [OF s c0 cn len lx] f0 by simp
  have "slots_of ?b =
          map (\<lambda>i. slot_at (mRingBuffer ?b) (?s * ((kr + int i) mod ?n)) ?s)
            [0..<Suc (nat ?f)]"
    using slots_of_pos [of ?b kr] f0 by (simp add: rest nat_add_distrib)
  also have "\<dots> =
          map (\<lambda>i. slot_at (mRingBuffer b) (?s * ((kr + int i) mod ?n)) ?s)
            [0..<nat ?f] @ [take (nat ?s) x]"
    using old new by simp
  also have "\<dots> = slots_of b @ [take (nat ?s) x]"
    using slots_of_pos [of b kr] by (simp add: rk T)
  finally show "slots_of ?b = slots_of b @ [take (nat ?s) x]" .
  show "mFullSlots ?b = ?f + 1" "mSlotSize ?b = ?s" "mNumSlots ?b = ?n"
    "mLastReadSlot ?b = mLastReadSlot b"
    by (simp_all add: rest)
qed

text \<open>A read from an object that is not empty hands out the oldest stored slot, keeps a
  copy of it, and leaves the others stored.\<close>

lemma read_nb_slots:
  assumes wf: "ring_wf b" and ne: "mFullSlots b \<noteq> 0"
  shows "ring_wf (fst (readSlotNonBlocking b out))"
    and "slots_of b = slot_at (mRingBuffer b) (mReadPosition b) (mSlotSize b)
                        # slots_of (fst (readSlotNonBlocking b out))"
    and "snd (readSlotNonBlocking b out)
           = slot_at (mRingBuffer b) (mReadPosition b) (mSlotSize b)
               @ drop (nat (mSlotSize b)) out"
    and "mLastReadSlot (fst (readSlotNonBlocking b out))
           = slot_at (mRingBuffer b) (mReadPosition b) (mSlotSize b)"
    and "length (slot_at (mRingBuffer b) (mReadPosition b) (mSlotSize b)) = nat (mSlotSize b)"
    and "mFullSlots (fst (readSlotNonBlocking b out)) = mFullSlots b - 1"
    and "mSlotSize (fst (readSlotNonBlocking b out)) = mSlotSize b"
    and "mNumSlots (fst (readSlotNonBlocking b out)) = mNumSlots b"
proof -
  let ?s = "mSlotSize b" and ?n = "mNumSlots b" and ?f = "mFullSlots b"
  let ?r = "mReadPosition b"
  let ?b = "fst (readSlotNonBlocking b out)"
  let ?first = "slot_at (mRingBuffer b) ?r ?s"
  from wf obtain kr where
    s: "0 < ?s" and n: "0 < ?n" and T: "mTotalSize b = ?s * ?n"
    and len: "length (mRingBuffer b) = nat (?s * ?n)"
    and lenl: "length (mLastReadSlot b) = nat ?s"
    and f0: "0 \<le> ?f" and fn: "?f \<le> ?n"
    and rk: "?r = ?s * kr" and k0: "0 \<le> kr" and kn: "kr < ?n"
    by (rule ring_wf_unpack)
  have fits: "nat ?r + nat ?s \<le> length (mRingBuffer b)"
    using slot_bounds(1) [OF s k0 kn] by (simp add: rk len)
  show lf: "length ?first = nat ?s"
    using fits by (simp add: slot_at_def)
  have ci: "ring_consts b" and vi: "ring_inv b" using wf by (simp_all add: ring_wf_def)
  note opn = read_nb_open [OF ci vi ne]
  have r0: "0 \<le> ?r" using s k0 by (simp add: rk)
  have r': "(?r + ?s) smod (?s * ?n) = (?r + ?s) mod (?s * ?n)"
    using r0 s n by (simp add: smod_nonneg_eq)
  have fs: "mRingBuffer ?b = mRingBuffer b" "mTotalSize ?b = ?s * ?n"
      "mSlotSize ?b = ?s" "mNumSlots ?b = ?n" "mFullSlots ?b = ?f - 1"
      "mReadPosition ?b = (?r + ?s) mod (?s * ?n)"
    by (simp_all add: opn T r')
  show "mFullSlots ?b = ?f - 1" "mSlotSize ?b = ?s" "mNumSlots ?b = ?n"
    by (simp_all add: fs)
  show out: "snd (readSlotNonBlocking b out) = ?first @ drop (nat ?s) out"
    by (simp add: opn memcpy_def slot_at_def)
  show last: "mLastReadSlot ?b = ?first"
    using lenl by (simp add: opn memcpy_def slot_at_def)
  have "ring_blocks ?b"
    using len lenl lf by (simp add: ring_blocks_def fs last)
  moreover have "ring_consts ?b" "ring_inv ?b"
    using read_nb_inv [of b out] wf by (simp_all add: ring_wf_def)
  ultimately show "ring_wf ?b" by (simp add: ring_wf_def)
  let ?g = "\<lambda>i. slot_at (mRingBuffer b) ((?r + int i * ?s) mod (?s * ?n)) ?s"
  have f1: "nat ?f = Suc (nat (?f - 1))" using f0 ne by simp
  have g0: "?g 0 = ?first"
  proof -
    have "?r < ?s * ?n" using slot_bounds(3) [OF s k0 kn] by (simp add: rk)
    then show ?thesis using r0 by simp
  qed
  have shift: "((?r + ?s) mod (?s * ?n) + int i * ?s) mod (?s * ?n)
                 = (?r + int (Suc i) * ?s) mod (?s * ?n)" for i
  proof -
    have "((?r + ?s) mod (?s * ?n) + int i * ?s) mod (?s * ?n)
            = ((?r + ?s) + int i * ?s) mod (?s * ?n)"
      by (simp only: mod_add_left_eq)
    also have "(?r + ?s) + int i * ?s = ?r + int (Suc i) * ?s"
      by (simp add: algebra_simps)
    finally show ?thesis .
  qed
  have "slots_of b = map ?g [0..<Suc (nat (?f - 1))]"
    using f1 by (simp add: slots_of_def T)
  also have "\<dots> = ?g 0 # map (\<lambda>i. ?g (Suc i)) [0..<nat (?f - 1)]"
    by (simp only: map_upt_Suc)
  also have "map (\<lambda>i. ?g (Suc i)) [0..<nat (?f - 1)] = slots_of ?b"
    by (simp only: slots_of_def fs shift)
  finally show "slots_of b = ?first # slots_of ?b" by (simp only: g0)
qed

section \<open>First in, first out\<close>

lemma length_slots_of: "length (slots_of b) = nat (mFullSlots b)"
  by (simp add: slots_of_def)

lemma insertSlots_appends:
  assumes "ring_wf b" and "\<forall>x\<in>set xs. length x = nat (mSlotSize b)"
    and "mFullSlots b + int (length xs) \<le> mNumSlots b"
  shows "\<exists>b1. insertSlots b xs = Some b1 \<and> ring_wf b1 \<and>
           slots_of b1 = slots_of b @ xs \<and>
           mFullSlots b1 = mFullSlots b + int (length xs) \<and>
           mSlotSize b1 = mSlotSize b \<and> mNumSlots b1 = mNumSlots b"
  using assms
proof (induction xs arbitrary: b)
  case Nil
  then show ?case by simp
next
  case (Cons x xs)
  let ?b = "insertSlotNonBlocking b x"
  have nf: "mFullSlots b \<noteq> mNumSlots b" using Cons.prems(3) by simp
  have lx: "length x = nat (mSlotSize b)" using Cons.prems(2) by simp
  then have lx': "nat (mSlotSize b) \<le> length x" by simp
  note st = insert_nb_slots [OF Cons.prems(1) nf lx']
  have run: "insertSlotBlocking [] b x = Some ?b"
    using nf by (rule insertSlotBlocking_ready)
  have "\<forall>y\<in>set xs. length y = nat (mSlotSize ?b)"
    using Cons.prems(2) by (simp add: st(4))
  moreover have "mFullSlots ?b + int (length xs) \<le> mNumSlots ?b"
    using Cons.prems(3) by (simp add: st(3,5))
  ultimately obtain b1 where
    "insertSlots ?b xs = Some b1" "ring_wf b1" "slots_of b1 = slots_of ?b @ xs"
    "mFullSlots b1 = mFullSlots ?b + int (length xs)"
    "mSlotSize b1 = mSlotSize ?b" "mNumSlots b1 = mNumSlots ?b"
    using Cons.IH [OF st(1)] by blast
  then show ?case
    using run lx by (simp add: st(2-5))
qed

lemma readSlots_takes:
  assumes "ring_wf b" and "int k \<le> mFullSlots b" and "length out = nat (mSlotSize b)"
  shows "\<exists>b2. readSlots b k out = Some (b2, take k (slots_of b)) \<and> ring_wf b2 \<and>
           slots_of b2 = drop k (slots_of b) \<and>
           mFullSlots b2 = mFullSlots b - int k"
  using assms
proof (induction k arbitrary: b out)
  case 0
  then show ?case by simp
next
  case (Suc k)
  let ?b = "fst (readSlotNonBlocking b out)"
  let ?o = "snd (readSlotNonBlocking b out)"
  let ?first = "slot_at (mRingBuffer b) (mReadPosition b) (mSlotSize b)"
  have ne: "mFullSlots b \<noteq> 0" using Suc.prems(2) by simp
  note st = read_nb_slots [OF Suc.prems(1) ne]
  have o: "?o = ?first" using st(3) Suc.prems(3) by simp
  have run: "readSlotBlocking [] b out = Some (?b, ?first)"
    using readSlotBlocking_ready [OF ne, of "[]" out] o by (simp add: prod_eq_iff)
  have "int k \<le> mFullSlots ?b" using Suc.prems(2) by (simp add: st(6))
  moreover have "length ?first = nat (mSlotSize ?b)" by (simp add: st(5,7))
  ultimately obtain b2 where
    "readSlots ?b k ?first = Some (b2, take k (slots_of ?b))" "ring_wf b2"
    "slots_of b2 = drop k (slots_of ?b)" "mFullSlots b2 = mFullSlots ?b - int k"
    using Suc.IH [OF st(1)] by blast
  moreover have "slots_of b = ?first # slots_of ?b" by (rule st(2))
  ultimately show ?case
    using run by (simp add: st(6))
qed

text \<open>
  C5. In a well-formed object that holds \<open>k\<close> slots, inserting a list of slots of
  \<open>mSlotSize\<close> bytes each that still fits (\<open>k\<close> plus its length at most
  \<open>mNumSlots\<close>) and then reading \<open>k\<close> plus that many times returns the \<open>k\<close> slots
  that were stored, followed by the inserted slots in the order of insertion. From an
  empty object, as many reads as slots were inserted return exactly those slots in
  order.
\<close>

theorem fifo_order:
  assumes "ring_wf b" and "\<forall>x\<in>set xs. length x = nat (mSlotSize b)"
    and "mFullSlots b + int (length xs) \<le> mNumSlots b"
    and "length out = nat (mSlotSize b)"
  shows "(\<exists>b1 b2. insertSlots b xs = Some b1 \<and>
            readSlots b1 (nat (mFullSlots b) + length xs) out
              = Some (b2, slots_of b @ xs)) \<and>
         (mFullSlots b = 0 \<longrightarrow>
            (\<exists>b1 b2. insertSlots b xs = Some b1 \<and>
               readSlots b1 (length xs) out = Some (b2, xs)))"
proof -
  obtain b1 where b1: "insertSlots b xs = Some b1" "ring_wf b1"
    "slots_of b1 = slots_of b @ xs"
    "mFullSlots b1 = mFullSlots b + int (length xs)" "mSlotSize b1 = mSlotSize b"
    using insertSlots_appends [OF assms(1-3)] by blast
  let ?k = "nat (mFullSlots b) + length xs"
  have f0: "0 \<le> mFullSlots b"
    using assms(1) by (simp add: ring_wf_def ring_inv_def)
  then have k: "int ?k \<le> mFullSlots b1" by (simp add: b1(4))
  have lo: "length out = nat (mSlotSize b1)" using assms(4) by (simp add: b1(5))
  obtain b2 where "readSlots b1 ?k out = Some (b2, take ?k (slots_of b1))"
    using readSlots_takes [OF b1(2) k lo] by blast
  moreover have "take ?k (slots_of b1) = slots_of b @ xs"
    by (simp add: b1(3) length_slots_of)
  ultimately have gen: "readSlots b1 ?k out = Some (b2, slots_of b @ xs)" by simp
  have "readSlots b1 (length xs) out = Some (b2, xs)" if "mFullSlots b = 0"
    using gen that by (simp add: slots_of_def)
  then show ?thesis using b1(1) gen by blast
qed

theorem fifo_order_witness:
  "ring_wf ex_drained \<and> mFullSlots ex_drained = 0 \<and>
   insertSlots ex_drained [[1], [2], [3]]
     = Some \<lparr> mSlotSize = 1, mNumSlots = 3, mTotalSize = 3,
              mReadPosition = 2, mWritePosition = 2, mFullSlots = 3,
              mRingBuffer = [2, 3, 1], mLastReadSlot = [7] \<rparr> \<and>
   (\<exists>b2. readSlots \<lparr> mSlotSize = 1, mNumSlots = 3, mTotalSize = 3,
                     mReadPosition = 2, mWritePosition = 2, mFullSlots = 3,
                     mRingBuffer = [2, 3, 1], mLastReadSlot = [7] \<rparr> 3 [9]
           = Some (b2, [[1], [2], [3]]))"
proof -
  have wf: "ring_wf ex_drained"
    by (simp add: ex_drained_def ring_wf_def inv_defs)
  have e: "mFullSlots ex_drained = 0" by (simp add: ex_drained_def)
  have len: "\<forall>x\<in>set [[1], [2], [3 :: byte]]. length x = nat (mSlotSize ex_drained)"
    by (simp add: ex_drained_def)
  have fits: "mFullSlots ex_drained + int (length [[1], [2], [3 :: byte]])
                \<le> mNumSlots ex_drained"
    by (simp add: ex_drained_def)
  have out: "length [9 :: byte] = nat (mSlotSize ex_drained)"
    by (simp add: ex_drained_def)
  have ins: "insertSlots ex_drained [[1], [2], [3]]
     = Some \<lparr> mSlotSize = 1, mNumSlots = 3, mTotalSize = 3,
              mReadPosition = 2, mWritePosition = 2, mFullSlots = 3,
              mRingBuffer = [2, 3, 1], mLastReadSlot = [7] \<rparr>"
    by (simp add: insertSlotBlocking.simps ex_drained_def run_defs)
  from fifo_order [OF wf len fits out] e obtain b1 b2 where
    "insertSlots ex_drained [[1], [2], [3]] = Some b1"
    "readSlots b1 (length [[1], [2], [3 :: byte]]) [9] = Some (b2, [[1], [2], [3]])"
    by blast
  moreover have "length [[1], [2], [3 :: byte]] = 3" by simp
  ultimately have "readSlots \<lparr> mSlotSize = 1, mNumSlots = 3, mTotalSize = 3,
                     mReadPosition = 2, mWritePosition = 2, mFullSlots = 3,
                     mRingBuffer = [2, 3, 1], mLastReadSlot = [7] \<rparr> 3 [9]
           = Some (b2, [[1], [2], [3]])"
    by (simp only: ins option.inject)
  then show ?thesis using wf e ins by blast
qed

text \<open>
  As C5 is worded it fails on the object the constructor returns, which already holds
  zero-filled slots: after one insert the first read returns a zero slot, and a second
  insert into the two-slot object does not return.
\<close>

theorem fifo_order_counterexample:
  "MTRingBuffer_ctor (Some stale) (Some stale) 1 2 = Inr ex_fresh \<and>
   insertSlots ex_fresh [[7]]
     = Some \<lparr> mSlotSize = 1, mNumSlots = 2, mTotalSize = 2,
              mReadPosition = 0, mWritePosition = 0, mFullSlots = 2,
              mRingBuffer = [0, 7], mLastReadSlot = [0] \<rparr> \<and>
   readSlots \<lparr> mSlotSize = 1, mNumSlots = 2, mTotalSize = 2,
               mReadPosition = 0, mWritePosition = 0, mFullSlots = 2,
               mRingBuffer = [0, 7], mLastReadSlot = [0] \<rparr> 1 [9]
     = Some (\<lparr> mSlotSize = 1, mNumSlots = 2, mTotalSize = 2,
               mReadPosition = 1, mWritePosition = 0, mFullSlots = 1,
               mRingBuffer = [0, 7], mLastReadSlot = [0] \<rparr>, [[0]]) \<and>
   [[0]] \<noteq> [[7 :: byte]] \<and>
   insertSlots ex_fresh [[7], [8]] = None"
proof -
  have "MTRingBuffer_ctor (Some stale) (Some stale) 1 2 = Inr ex_fresh"
    by (simp add: ctor_Inr ex_fresh_def numeral_2_eq_2 INT_MAX_def)
  then show ?thesis
    by (simp add: ex_fresh_def insertSlotBlocking.simps readSlotBlocking.simps run_defs)
qed

text \<open>
  C6. In a well-formed empty object, inserting a slot of \<open>mSlotSize\<close> bytes and then
  reading into a block of \<open>mSlotSize\<close> bytes returns exactly that slot, with the
  blocking calls (neither of which has to wait) and with the non-blocking ones.
\<close>

theorem round_trip_empty:
  assumes "ring_wf b" and "mFullSlots b = 0"
    and "length S = nat (mSlotSize b)" and "length out = nat (mSlotSize b)"
  shows "(\<exists>b1 b2. insertSlotBlocking ws b S = Some b1 \<and>
            readSlotBlocking ws' b1 out = Some (b2, S)) \<and>
         snd (readSlotNonBlocking (insertSlotNonBlocking b S) out) = S"
proof -
  let ?b1 = "insertSlotNonBlocking b S"
  have "0 < mNumSlots b" using assms(1) by (simp add: ring_wf_def ring_consts_def)
  then have nf: "mFullSlots b \<noteq> mNumSlots b" using assms(2) by simp
  have lS: "nat (mSlotSize b) \<le> length S" using assms(3) by simp
  note ins = insert_nb_slots [OF assms(1) nf lS]
  have ne: "mFullSlots ?b1 \<noteq> 0" using assms(2) by (simp add: ins(3))
  note rd = read_nb_slots [OF ins(1) ne]
  have "slots_of ?b1 = [S]"
    using ins(2) assms(2,3) by (simp add: slots_of_def)
  then have first: "slot_at (mRingBuffer ?b1) (mReadPosition ?b1) (mSlotSize ?b1) = S"
    using rd(2) [of out] by simp
  have "snd (readSlotNonBlocking ?b1 out) = S @ drop (nat (mSlotSize ?b1)) out"
    using rd(3) [of out] by (simp only: first)
  then have got: "snd (readSlotNonBlocking ?b1 out) = S"
    using assms(4) by (simp add: ins(4))
  have "insertSlotBlocking ws b S = Some ?b1"
    using nf by (rule insertSlotBlocking_ready)
  moreover have "readSlotBlocking ws' ?b1 out
                   = Some (fst (readSlotNonBlocking ?b1 out), S)"
    using readSlotBlocking_ready [OF ne, of ws' out] got by (simp add: prod_eq_iff)
  ultimately show ?thesis using got by blast
qed

theorem round_trip_empty_witness:
  "ring_wf ex_drained \<and> mFullSlots ex_drained = 0 \<and>
   length [4 :: byte] = nat (mSlotSize ex_drained) \<and>
   length [9 :: byte] = nat (mSlotSize ex_drained) \<and>
   (\<exists>b1 b2. insertSlotBlocking [] ex_drained [4] = Some b1 \<and>
      readSlotBlocking [] b1 [9] = Some (b2, [4])) \<and>
   snd (readSlotNonBlocking (insertSlotNonBlocking ex_drained [4]) [9]) = [4]"
proof -
  have wf: "ring_wf ex_drained"
    by (simp add: ex_drained_def ring_wf_def inv_defs)
  have e: "mFullSlots ex_drained = 0" by (simp add: ex_drained_def)
  have l1: "length [4 :: byte] = nat (mSlotSize ex_drained)"
    and l2: "length [9 :: byte] = nat (mSlotSize ex_drained)"
    by (simp_all add: ex_drained_def)
  show ?thesis
    using round_trip_empty [OF wf e l1 l2, of "[]" "[]"] wf e l1 l2 by simp
qed

text \<open>
  As C6 is worded it fails whenever a slot is already stored: the read that follows the
  insert returns the oldest stored slot, here the zero-filled slot of a fresh object.
\<close>

theorem round_trip_counterexample:
  "mFullSlots ex_fresh < mNumSlots ex_fresh \<and>
   insertSlotBlocking [] ex_fresh [7]
     = Some \<lparr> mSlotSize = 1, mNumSlots = 2, mTotalSize = 2,
              mReadPosition = 0, mWritePosition = 0, mFullSlots = 2,
              mRingBuffer = [0, 7], mLastReadSlot = [0] \<rparr> \<and>
   readSlotBlocking [] \<lparr> mSlotSize = 1, mNumSlots = 2, mTotalSize = 2,
                      mReadPosition = 0, mWritePosition = 0, mFullSlots = 2,
                      mRingBuffer = [0, 7], mLastReadSlot = [0] \<rparr> [9]
     = Some (\<lparr> mSlotSize = 1, mNumSlots = 2, mTotalSize = 2,
               mReadPosition = 1, mWritePosition = 0, mFullSlots = 1,
               mRingBuffer = [0, 7], mLastReadSlot = [0] \<rparr>, [0]) \<and>
   snd (readSlotNonBlocking (insertSlotNonBlocking ex_fresh [7]) [9]) = [0] \<and>
   [0] \<noteq> [7 :: byte]"
  by (simp add: ex_fresh_def insertSlotBlocking.simps readSlotBlocking.simps run_defs)

section \<open>The last slot read\<close>

lemma read_nb_last:
  assumes "ring_wf b" and "mFullSlots b \<noteq> 0"
  shows "mLastReadSlot (fst (readSlotNonBlocking b out))
           = take (nat (mSlotSize (fst (readSlotNonBlocking b out))))
               (snd (readSlotNonBlocking b out))"
proof -
  note rd = read_nb_slots [OF assms]
  show ?thesis
    by (simp only: rd(3,4,7) [of out]) (simp add: rd(5))
qed

lemma readSlotBlocking_last:
  assumes "\<forall>w\<in>set ws. \<forall>c. ring_wf c \<and> mSlotSize c = s
             \<longrightarrow> ring_wf (w c) \<and> mSlotSize (w c) = s"
    and "ring_wf b" and "mSlotSize b = s"
    and "readSlotBlocking ws b out = Some (b', out')"
  shows "mLastReadSlot b' = take (nat s) out'"
    and "length out = nat s \<Longrightarrow> mLastReadSlot b' = out'"
proof -
  have ready: "mLastReadSlot b' = take (nat s) out' \<and>
               (length out = nat s \<longrightarrow> mLastReadSlot b' = out')"
    if wf: "ring_wf c" and sz: "mSlotSize c = s" and ne: "mFullSlots c \<noteq> 0"
      and run: "readSlotBlocking vs c out = Some (b', out')" for c vs
  proof -
    note rd = read_nb_slots [OF wf ne]
    have eq: "readSlotNonBlocking c out = (b', out')"
      using run ne by (simp add: readSlotBlocking_ready)
    have sb: "mSlotSize b' = s" using rd(7) [of out] by (simp add: eq sz)
    have "mLastReadSlot b' = take (nat s) out'"
      using read_nb_last [OF wf ne, of out] by (simp add: eq sb)
    moreover have "mLastReadSlot b' = out'" if "length out = nat s"
      using that rd(3,4) [of out] by (simp add: eq sz)
    ultimately show ?thesis by simp
  qed
  have "mLastReadSlot b' = take (nat s) out' \<and>
        (length out = nat s \<longrightarrow> mLastReadSlot b' = out')"
    using assms
  proof (induction ws arbitrary: b)
    case Nil
    show ?case
    proof (cases "mFullSlots b = 0")
      case True
      then show ?thesis using Nil.prems(4) by (simp add: readSlotBlocking_parked)
    next
      case False
      then show ?thesis using ready Nil.prems by blast
    qed
  next
    case (Cons w ws)
    show ?case
    proof (cases "mFullSlots b = 0")
      case True
      have "ring_wf (w b)" "mSlotSize (w b) = s" using Cons.prems(1-3) by simp_all
      moreover have "readSlotBlocking ws (w b) out = Some (b', out')"
        using Cons.prems(4) True by (simp add: readSlotBlocking_parked)
      moreover have "\<forall>w\<in>set ws. \<forall>c. ring_wf c \<and> mSlotSize c = s
             \<longrightarrow> ring_wf (w c) \<and> mSlotSize (w c) = s"
        using Cons.prems(1) by simp
      ultimately show ?thesis by (rule Cons.IH [rotated])
    next
      case False
      then show ?thesis using ready Cons.prems by blast
    qed
  qed
  then show "mLastReadSlot b' = take (nat s) out'"
    and "length out = nat s \<Longrightarrow> mLastReadSlot b' = out'"
    by blast+
qed

text \<open>A non-blocking insert of a slot that is long enough keeps the object well formed,
  also on the overflow path when the sum of the recovery is a value of type
  \<^verbatim>\<open>int\<close>.\<close>

lemma insert_nb_wf:
  assumes "ring_wf b" and "nat (mSlotSize b) \<le> length x"
    and "mFullSlots b \<noteq> mNumSlots b \<or>
         mReadPosition b + (mNumSlots b div 2) * mSlotSize b \<le> INT_MAX"
  shows "ring_wf (insertSlotNonBlocking b x)"
    and "mSlotSize (insertSlotNonBlocking b x) = mSlotSize b"
proof -
  show "ring_wf (insertSlotNonBlocking b x)"
  proof (cases "mFullSlots b = mNumSlots b")
    case True
    have "ring_consts (overflowReset b) \<and> ring_inv (overflowReset b)"
      using overflowReset_inv [OF _ _ True] assms(1,3) True by (simp add: ring_wf_def)
    moreover have "ring_blocks (overflowReset b)"
      using assms(1) by (simp add: ring_wf_def ring_blocks_def overflowReset_def)
    ultimately show ?thesis
      using True by (simp add: ring_wf_def insertSlotNonBlocking_def)
  next
    case False
    then show ?thesis using insert_nb_slots(1) assms(1,2) by blast
  qed
  show "mSlotSize (insertSlotNonBlocking b x) = mSlotSize b"
    by (simp add: insertSlotNonBlocking_def overflowReset_def)
qed

lemma insert_nb_last: "mLastReadSlot (insertSlotNonBlocking b x) = mLastReadSlot b"
  by (simp add: insertSlotNonBlocking_def overflowReset_def)

lemma insertSlotBlocking_last:
  assumes "\<forall>w\<in>set ws. \<forall>c. mLastReadSlot (w c) = mLastReadSlot c"
    and "insertSlotBlocking ws b x = Some b'"
  shows "mLastReadSlot b' = mLastReadSlot b"
  using assms
proof (induction ws arbitrary: b)
  case Nil
  then show ?case
    by (cases "mFullSlots b = mNumSlots b")
       (auto simp: insertSlotBlocking_parked insertSlotBlocking_ready insert_nb_last)
next
  case (Cons w ws)
  show ?case
  proof (cases "mFullSlots b = mNumSlots b")
    case True
    then have "insertSlotBlocking ws (w b) x = Some b'"
      using Cons.prems(2) by (simp add: insertSlotBlocking_parked)
    then have "mLastReadSlot b' = mLastReadSlot (w b)"
      using Cons.IH Cons.prems(1) by simp
    then show ?thesis using Cons.prems(1) by simp
  next
    case False
    then show ?thesis using Cons.prems(2)
      by (auto simp: insertSlotBlocking_ready insert_nb_last)
  qed
qed

text \<open>
  C7. A read that transfers a slot (the non-blocking read of a well-formed object that is
  not empty, and every blocking read that returns) leaves in \<open>mLastReadSlot\<close> the
  \<open>mSlotSize\<close> bytes it put into the caller's block, which are the whole block when
  the block has \<open>mSlotSize\<close> bytes. Every other operation leaves
  \<open>mLastReadSlot\<close> as it was: both inserts, both recovery policies, and the
  non-blocking read of an empty object, which clears the storage.
\<close>

theorem last_read_slot_kept:
  "(ring_wf b \<and> mFullSlots b \<noteq> 0 \<longrightarrow>
      mLastReadSlot (fst (readSlotNonBlocking b out))
        = take (nat (mSlotSize b)) (snd (readSlotNonBlocking b out)) \<and>
      (length out = nat (mSlotSize b) \<longrightarrow>
         mLastReadSlot (fst (readSlotNonBlocking b out)) = snd (readSlotNonBlocking b out))) \<and>
   (ring_wf b \<and>
    (\<forall>w\<in>set ws. \<forall>c. ring_wf c \<and> mSlotSize c = mSlotSize b
        \<longrightarrow> ring_wf (w c) \<and> mSlotSize (w c) = mSlotSize b) \<longrightarrow>
      (\<forall>b' out'. readSlotBlocking ws b out = Some (b', out') \<longrightarrow>
         mLastReadSlot b' = take (nat (mSlotSize b)) out' \<and>
         (length out = nat (mSlotSize b) \<longrightarrow> mLastReadSlot b' = out'))) \<and>
   mLastReadSlot (insertSlotNonBlocking b x) = mLastReadSlot b \<and>
   ((\<forall>w\<in>set ws. \<forall>c. mLastReadSlot (w c) = mLastReadSlot c) \<longrightarrow>
      (\<forall>b'. insertSlotBlocking ws b x = Some b' \<longrightarrow> mLastReadSlot b' = mLastReadSlot b)) \<and>
   (mFullSlots b = 0 \<longrightarrow>
      mLastReadSlot (fst (readSlotNonBlocking b out)) = mLastReadSlot b) \<and>
   mLastReadSlot (underrunReset b) = mLastReadSlot b \<and>
   mLastReadSlot (overflowReset b) = mLastReadSlot b"
proof (intro conjI impI allI)
  assume a: "ring_wf b \<and> mFullSlots b \<noteq> 0"
  then have wf: "ring_wf b" and ne: "mFullSlots b \<noteq> 0" by simp_all
  note rd = read_nb_slots [OF wf ne]
  show "mLastReadSlot (fst (readSlotNonBlocking b out))
          = take (nat (mSlotSize b)) (snd (readSlotNonBlocking b out))"
    using read_nb_last [OF wf ne, of out] by (simp only: rd(7))
  show "mLastReadSlot (fst (readSlotNonBlocking b out)) = snd (readSlotNonBlocking b out)"
    if "length out = nat (mSlotSize b)"
    using that by (simp add: rd(3,4))
next
  fix b' out'
  assume a: "ring_wf b \<and>
    (\<forall>w\<in>set ws. \<forall>c. ring_wf c \<and> mSlotSize c = mSlotSize b
        \<longrightarrow> ring_wf (w c) \<and> mSlotSize (w c) = mSlotSize b)"
    and run: "readSlotBlocking ws b out = Some (b', out')"
  from a have env: "\<forall>w\<in>set ws. \<forall>c. ring_wf c \<and> mSlotSize c = mSlotSize b
        \<longrightarrow> ring_wf (w c) \<and> mSlotSize (w c) = mSlotSize b"
    and wf: "ring_wf b" by simp_all
  show "mLastReadSlot b' = take (nat (mSlotSize b)) out'"
    by (rule readSlotBlocking_last(1) [OF env wf refl run])
  show "mLastReadSlot b' = out'" if "length out = nat (mSlotSize b)"
    using that by (rule readSlotBlocking_last(2) [OF env wf refl run])
next
  fix b'
  assume "\<forall>w\<in>set ws. \<forall>c. mLastReadSlot (w c) = mLastReadSlot c"
    and "insertSlotBlocking ws b x = Some b'"
  then show "mLastReadSlot b' = mLastReadSlot b"
    by (rule insertSlotBlocking_last)
qed (simp_all add: insert_nb_last readSlotNonBlocking_def underrunReset_def
      overflowReset_def)

theorem last_read_slot_kept_witness:
  "ring_wf ex_full \<and> mFullSlots ex_full \<noteq> 0 \<and>
   length [9 :: byte] = nat (mSlotSize ex_full) \<and>
   snd (readSlotNonBlocking ex_full [9]) = [5] \<and>
   mLastReadSlot (fst (readSlotNonBlocking ex_full [9])) = [5] \<and>
   mLastReadSlot (insertSlotNonBlocking ex_full [9]) = mLastReadSlot ex_full \<and>
   mLastReadSlot (overflowReset ex_full) = mLastReadSlot ex_full \<and>
   ring_wf ex_drained \<and> mFullSlots ex_drained = 0 \<and>
   mLastReadSlot ex_drained = [7] \<and>
   mRingBuffer (fst (readSlotNonBlocking ex_drained [9])) = [0, 0, 0] \<and>
   mLastReadSlot (fst (readSlotNonBlocking ex_drained [9])) = [7] \<and>
   mLastReadSlot (underrunReset ex_drained) = [7] \<and>
   readSlotBlocking [\<lambda>c. if mFullSlots c = mNumSlots c then c else insertSlotNonBlocking c [4]] ex_drained [9]
     = Some (\<lparr> mSlotSize = 1, mNumSlots = 3, mTotalSize = 3,
               mReadPosition = 0, mWritePosition = 0, mFullSlots = 0,
               mRingBuffer = [0, 7, 4], mLastReadSlot = [4] \<rparr>, [4]) \<and>
   insertSlotBlocking [\<lambda>c. fst (readSlotNonBlocking c [9])] ex_full [8]
     = Some \<lparr> mSlotSize = 1, mNumSlots = 2, mTotalSize = 2,
              mReadPosition = 1, mWritePosition = 1, mFullSlots = 2,
              mRingBuffer = [8, 6], mLastReadSlot = [5] \<rparr>"
proof -
  let ?producer = "[\<lambda>c. if mFullSlots c = mNumSlots c then c else insertSlotNonBlocking c [4]]"
  have wf: "ring_wf ex_full" and ne: "mFullSlots ex_full \<noteq> 0"
    and l: "length [9 :: byte] = nat (mSlotSize ex_full)"
    by (simp_all add: ex_full_def ring_wf_def inv_defs)
  have wf': "ring_wf ex_drained" and e: "mFullSlots ex_drained = 0"
    and last: "mLastReadSlot ex_drained = [7]"
    and l': "length [9 :: byte] = nat (mSlotSize ex_drained)"
    by (simp_all add: ex_drained_def ring_wf_def inv_defs)
  have env: "\<forall>w\<in>set ?producer. \<forall>c. ring_wf c \<and> mSlotSize c = mSlotSize ex_drained
               \<longrightarrow> ring_wf (w c) \<and> mSlotSize (w c) = mSlotSize ex_drained"
    using insert_nb_wf [of _ "[4]"] by (simp add: ex_drained_def)
  have still: "\<forall>w\<in>set ([] :: wakes). \<forall>c. mLastReadSlot (w c) = mLastReadSlot c"
    by simp
  have rd: "readSlotBlocking ?producer ex_drained [9]
     = Some (\<lparr> mSlotSize = 1, mNumSlots = 3, mTotalSize = 3,
               mReadPosition = 0, mWritePosition = 0, mFullSlots = 0,
               mRingBuffer = [0, 7, 4], mLastReadSlot = [4] \<rparr>, [4])"
    by (simp add: readSlotBlocking.simps ex_drained_def run_defs)
  have ins: "insertSlotBlocking [\<lambda>c. fst (readSlotNonBlocking c [9])] ex_full [8]
     = Some \<lparr> mSlotSize = 1, mNumSlots = 2, mTotalSize = 2,
              mReadPosition = 1, mWritePosition = 1, mFullSlots = 2,
              mRingBuffer = [8, 6], mLastReadSlot = [5] \<rparr>"
    by (simp add: insertSlotBlocking.simps ex_full_def run_defs)
  have out: "snd (readSlotNonBlocking ex_full [9]) = [5]"
    by (simp add: ex_full_def run_defs)
  have zero: "mRingBuffer (fst (readSlotNonBlocking ex_drained [9])) = [0, 0, 0]"
    by (simp add: ex_drained_def run_defs numeral_3_eq_3)
  note full = last_read_slot_kept [of ex_full "[9]" "[]" "[9]"]
  note drained = last_read_slot_kept [of ex_drained "[9]" ?producer "[9]"]
  have "mLastReadSlot (fst (readSlotNonBlocking ex_full [9]))
          = snd (readSlotNonBlocking ex_full [9])"
    using full wf ne l by blast
  then have a: "mLastReadSlot (fst (readSlotNonBlocking ex_full [9])) = [5]"
    by (simp only: out)
  have b: "mLastReadSlot (insertSlotNonBlocking ex_full [9]) = mLastReadSlot ex_full"
    and c: "mLastReadSlot (overflowReset ex_full) = mLastReadSlot ex_full"
    using full by blast+
  have "mLastReadSlot (fst (readSlotNonBlocking ex_drained [9])) = mLastReadSlot ex_drained"
    and "mLastReadSlot (underrunReset ex_drained) = mLastReadSlot ex_drained"
    using drained e by blast+
  then have d: "mLastReadSlot (fst (readSlotNonBlocking ex_drained [9])) = [7]"
    and u: "mLastReadSlot (underrunReset ex_drained) = [7]"
    by (simp_all only: last)
  have "\<forall>b' out'. readSlotBlocking ?producer ex_drained [9] = Some (b', out') \<longrightarrow>
          mLastReadSlot b' = take (nat (mSlotSize ex_drained)) out' \<and>
          (length [9 :: byte] = nat (mSlotSize ex_drained) \<longrightarrow> mLastReadSlot b' = out')"
    using drained wf' env by blast
  show ?thesis
    by (intro conjI wf ne l out a b c wf' e last zero d u rd ins)
qed

section \<open>Waiting\<close>

text \<open>
  The state a parked call finds after \<open>k\<close> returns of \<^verbatim>\<open>wait\<close> is
  \<open>foldl (\<lambda>c w. w c) b (take k ws)\<close>. A blocking call that returns found its guard
  true in each of the states before the one in which it made its transfer, and false
  in that one; a call whose guard holds in all the states it sees is still parked.
\<close>

lemma insertSlotBlocking_returns:
  "insertSlotBlocking ws b p = Some b' \<Longrightarrow>
   \<exists>k \<le> length ws.
      (\<forall>j < k. mFullSlots (foldl (\<lambda>c w. w c) b (take j ws))
                  = mNumSlots (foldl (\<lambda>c w. w c) b (take j ws))) \<and>
      mFullSlots (foldl (\<lambda>c w. w c) b (take k ws))
        \<noteq> mNumSlots (foldl (\<lambda>c w. w c) b (take k ws)) \<and>
      b' = insertSlotNonBlocking (foldl (\<lambda>c w. w c) b (take k ws)) p"
proof (induction ws arbitrary: b)
  case Nil
  then show ?case
    by (cases "mFullSlots b = mNumSlots b")
       (simp_all add: insertSlotBlocking_parked insertSlotBlocking_ready)
next
  case (Cons w ws)
  show ?case
  proof (cases "mFullSlots b = mNumSlots b")
    case True
    with Cons.prems have "insertSlotBlocking ws (w b) p = Some b'"
      by (simp add: insertSlotBlocking_parked)
    from Cons.IH [OF this] obtain k where k: "k \<le> length ws"
      "\<forall>j < k. mFullSlots (foldl (\<lambda>c w. w c) (w b) (take j ws))
                  = mNumSlots (foldl (\<lambda>c w. w c) (w b) (take j ws))"
      "mFullSlots (foldl (\<lambda>c w. w c) (w b) (take k ws))
         \<noteq> mNumSlots (foldl (\<lambda>c w. w c) (w b) (take k ws))"
      "b' = insertSlotNonBlocking (foldl (\<lambda>c w. w c) (w b) (take k ws)) p"
      by blast
    have "mFullSlots (foldl (\<lambda>c w. w c) b (take j (w # ws)))
            = mNumSlots (foldl (\<lambda>c w. w c) b (take j (w # ws)))" if "j < Suc k" for j
      using that k(2) True by (cases j) simp_all
    then show ?thesis using k(1,3,4) by (intro exI [of _ "Suc k"]) simp
  next
    case False
    with Cons.prems show ?thesis
      by (intro exI [of _ 0]) (simp add: insertSlotBlocking_ready)
  qed
qed

lemma readSlotBlocking_returns:
  "readSlotBlocking ws b q = Some r \<Longrightarrow>
   \<exists>k \<le> length ws.
      (\<forall>j < k. mFullSlots (foldl (\<lambda>c w. w c) b (take j ws)) = 0) \<and>
      mFullSlots (foldl (\<lambda>c w. w c) b (take k ws)) \<noteq> 0 \<and>
      r = readSlotNonBlocking (foldl (\<lambda>c w. w c) b (take k ws)) q"
proof (induction ws arbitrary: b)
  case Nil
  then show ?case
    by (cases "mFullSlots b = 0")
       (simp_all add: readSlotBlocking_parked readSlotBlocking_ready)
next
  case (Cons w ws)
  show ?case
  proof (cases "mFullSlots b = 0")
    case True
    with Cons.prems have "readSlotBlocking ws (w b) q = Some r"
      by (simp add: readSlotBlocking_parked)
    from Cons.IH [OF this] obtain k where k: "k \<le> length ws"
      "\<forall>j < k. mFullSlots (foldl (\<lambda>c w. w c) (w b) (take j ws)) = 0"
      "mFullSlots (foldl (\<lambda>c w. w c) (w b) (take k ws)) \<noteq> 0"
      "r = readSlotNonBlocking (foldl (\<lambda>c w. w c) (w b) (take k ws)) q"
      by blast
    have "mFullSlots (foldl (\<lambda>c w. w c) b (take j (w # ws))) = 0" if "j < Suc k" for j
      using that k(2) True by (cases j) simp_all
    then show ?thesis using k(1,3,4) by (intro exI [of _ "Suc k"]) simp
  next
    case False
    with Cons.prems show ?thesis
      by (intro exI [of _ 0]) (simp add: readSlotBlocking_ready)
  qed
qed

lemma insertSlotBlocking_still_parked:
  assumes "\<forall>k \<le> length ws. mFullSlots (foldl (\<lambda>c w. w c) b (take k ws))
                               = mNumSlots (foldl (\<lambda>c w. w c) b (take k ws))"
  shows "insertSlotBlocking ws b p = None"
proof (cases "insertSlotBlocking ws b p")
  case None
  then show ?thesis .
next
  case (Some b')
  from insertSlotBlocking_returns [OF this] assms show ?thesis by blast
qed

lemma readSlotBlocking_still_parked:
  assumes "\<forall>k \<le> length ws. mFullSlots (foldl (\<lambda>c w. w c) b (take k ws)) = 0"
  shows "readSlotBlocking ws b q = None"
proof (cases "readSlotBlocking ws b q")
  case None
  then show ?thesis .
next
  case (Some r)
  from readSlotBlocking_returns [OF this] assms show ?thesis by blast
qed

lemma after_wakes_0: "after_wakes ws 0 b = b"
  by (simp add: after_wakes_def)

lemma after_wakes_Suc:
  "k < length ws \<Longrightarrow> after_wakes ws (Suc k) b = (ws ! k) (after_wakes ws k b)"
  by (simp add: after_wakes_def take_Suc_conv_app_nth)

text \<open>A call that was parked on entry and returns did so after a wake that turned its
  guard from true to false.\<close>

lemma insertSlotBlocking_freed:
  assumes "mFullSlots b = mNumSlots b" and "insertSlotBlocking ws b p = Some b'"
  shows "\<exists>k < length ws.
           mFullSlots (after_wakes ws k b) = mNumSlots (after_wakes ws k b) \<and>
           mFullSlots (after_wakes ws (Suc k) b) \<noteq> mNumSlots (after_wakes ws (Suc k) b) \<and>
           b' = insertSlotNonBlocking (after_wakes ws (Suc k) b) p"
proof -
  from insertSlotBlocking_returns [OF assms(2)] obtain k where k: "k \<le> length ws"
    "\<forall>j < k. mFullSlots (after_wakes ws j b) = mNumSlots (after_wakes ws j b)"
    "mFullSlots (after_wakes ws k b) \<noteq> mNumSlots (after_wakes ws k b)"
    "b' = insertSlotNonBlocking (after_wakes ws k b) p"
    unfolding after_wakes_def by blast
  have "k \<noteq> 0"
  proof
    assume "k = 0"
    then show False using k(3) assms(1) by (simp add: after_wakes_0)
  qed
  then obtain m where m: "k = Suc m" by (cases k) simp_all
  then have "m < length ws" "m < k" using k(1) by simp_all
  then show ?thesis using k(2,3,4) m by blast
qed

lemma readSlotBlocking_supplied:
  assumes "mFullSlots b = 0" and "readSlotBlocking ws b q = Some r"
  shows "\<exists>k < length ws.
           mFullSlots (after_wakes ws k b) = 0 \<and>
           mFullSlots (after_wakes ws (Suc k) b) \<noteq> 0 \<and>
           r = readSlotNonBlocking (after_wakes ws (Suc k) b) q"
proof -
  from readSlotBlocking_returns [OF assms(2)] obtain k where k: "k \<le> length ws"
    "\<forall>j < k. mFullSlots (after_wakes ws j b) = 0"
    "mFullSlots (after_wakes ws k b) \<noteq> 0"
    "r = readSlotNonBlocking (after_wakes ws k b) q"
    unfolding after_wakes_def by blast
  have "k \<noteq> 0"
  proof
    assume "k = 0"
    then show False using k(3) assms(1) by (simp add: after_wakes_0)
  qed
  then obtain m where m: "k = Suc m" by (cases k) simp_all
  then have "m < length ws" "m < k" using k(1) by simp_all
  then show ?thesis using k(2,3,4) m by blast
qed

text \<open>
  C8. A blocking insert that returns made its copy and its position update in a state
  in which the object was not full, after finding it full at entry and at each earlier
  return of \<^verbatim>\<open>wait\<close>; a blocking read that returns made its transfer in a state
  in which the object was not empty, after finding it empty each time before. A
  blocking insert that finds the object full every time it looks does not return, and
  neither does a blocking read that finds it empty every time. When the only other
  thread is a consumer, a blocking insert into a full object returns only after a
  wake in which the consumer read at least once and which left the object not full;
  when the only other thread is a producer, a blocking read of an empty object
  returns only after a wake in which the producer inserted at least once and which
  left the object not empty.
\<close>

theorem blocking_waits:
  "(\<forall>b'. insertSlotBlocking ws b p = Some b' \<longrightarrow>
      (\<exists>k \<le> length ws.
         (\<forall>j < k. mFullSlots (after_wakes ws j b) = mNumSlots (after_wakes ws j b)) \<and>
         mFullSlots (after_wakes ws k b) \<noteq> mNumSlots (after_wakes ws k b) \<and>
         b' = insertSlotNonBlocking (after_wakes ws k b) p)) \<and>
   (\<forall>r. readSlotBlocking ws b q = Some r \<longrightarrow>
      (\<exists>k \<le> length ws.
         (\<forall>j < k. mFullSlots (after_wakes ws j b) = 0) \<and>
         mFullSlots (after_wakes ws k b) \<noteq> 0 \<and>
         r = readSlotNonBlocking (after_wakes ws k b) q)) \<and>
   ((\<forall>k \<le> length ws. mFullSlots (after_wakes ws k b) = mNumSlots (after_wakes ws k b))
      \<longrightarrow> insertSlotBlocking ws b p = None) \<and>
   ((\<forall>k \<le> length ws. mFullSlots (after_wakes ws k b) = 0)
      \<longrightarrow> readSlotBlocking ws b q = None) \<and>
   (mFullSlots b = mNumSlots b \<longrightarrow>
      (\<forall>b'. insertSlotBlocking (map reads_by_consumer qss) b p = Some b' \<longrightarrow>
         (\<exists>k < length qss.
            mFullSlots (after_wakes (map reads_by_consumer qss) k b)
              = mNumSlots (after_wakes (map reads_by_consumer qss) k b) \<and>
            qss ! k \<noteq> [] \<and>
            mFullSlots (after_wakes (map reads_by_consumer qss) (Suc k) b)
              \<noteq> mNumSlots (after_wakes (map reads_by_consumer qss) (Suc k) b) \<and>
            b' = insertSlotNonBlocking
                   (after_wakes (map reads_by_consumer qss) (Suc k) b) p))) \<and>
   (mFullSlots b = 0 \<longrightarrow>
      (\<forall>r. readSlotBlocking (map inserts_by_producer xss) b q = Some r \<longrightarrow>
         (\<exists>k < length xss.
            mFullSlots (after_wakes (map inserts_by_producer xss) k b) = 0 \<and>
            xss ! k \<noteq> [] \<and>
            mFullSlots (after_wakes (map inserts_by_producer xss) (Suc k) b) \<noteq> 0 \<and>
            r = readSlotNonBlocking
                  (after_wakes (map inserts_by_producer xss) (Suc k) b) q)))"
proof (intro conjI impI allI)
  fix b'
  assume "insertSlotBlocking ws b p = Some b'"
  from insertSlotBlocking_returns [OF this]
  show "\<exists>k \<le> length ws.
         (\<forall>j < k. mFullSlots (after_wakes ws j b) = mNumSlots (after_wakes ws j b)) \<and>
         mFullSlots (after_wakes ws k b) \<noteq> mNumSlots (after_wakes ws k b) \<and>
         b' = insertSlotNonBlocking (after_wakes ws k b) p"
    unfolding after_wakes_def .
next
  fix r
  assume "readSlotBlocking ws b q = Some r"
  from readSlotBlocking_returns [OF this]
  show "\<exists>k \<le> length ws.
         (\<forall>j < k. mFullSlots (after_wakes ws j b) = 0) \<and>
         mFullSlots (after_wakes ws k b) \<noteq> 0 \<and>
         r = readSlotNonBlocking (after_wakes ws k b) q"
    unfolding after_wakes_def .
next
  assume "\<forall>k \<le> length ws.
            mFullSlots (after_wakes ws k b) = mNumSlots (after_wakes ws k b)"
  then show "insertSlotBlocking ws b p = None"
    unfolding after_wakes_def by (rule insertSlotBlocking_still_parked)
next
  assume "\<forall>k \<le> length ws. mFullSlots (after_wakes ws k b) = 0"
  then show "readSlotBlocking ws b q = None"
    unfolding after_wakes_def by (rule readSlotBlocking_still_parked)
next
  fix b'
  let ?ws = "map reads_by_consumer qss"
  assume full: "mFullSlots b = mNumSlots b"
    and run: "insertSlotBlocking ?ws b p = Some b'"
  from insertSlotBlocking_freed [OF full run] obtain k where k: "k < length qss"
    "mFullSlots (after_wakes ?ws k b) = mNumSlots (after_wakes ?ws k b)"
    "mFullSlots (after_wakes ?ws (Suc k) b) \<noteq> mNumSlots (after_wakes ?ws (Suc k) b)"
    "b' = insertSlotNonBlocking (after_wakes ?ws (Suc k) b) p"
    by auto
  have step: "after_wakes ?ws (Suc k) b = reads_by_consumer (qss ! k) (after_wakes ?ws k b)"
    using k(1) by (simp add: after_wakes_Suc)
  have "qss ! k \<noteq> []"
  proof
    assume "qss ! k = []"
    then have "after_wakes ?ws (Suc k) b = after_wakes ?ws k b"
      by (simp add: step reads_by_consumer_def)
    then show False using k(2,3) by simp
  qed
  then show "\<exists>k < length qss.
            mFullSlots (after_wakes ?ws k b) = mNumSlots (after_wakes ?ws k b) \<and>
            qss ! k \<noteq> [] \<and>
            mFullSlots (after_wakes ?ws (Suc k) b)
              \<noteq> mNumSlots (after_wakes ?ws (Suc k) b) \<and>
            b' = insertSlotNonBlocking (after_wakes ?ws (Suc k) b) p"
    using k by blast
next
  fix r
  let ?ws = "map inserts_by_producer xss"
  assume empty: "mFullSlots b = 0"
    and run: "readSlotBlocking ?ws b q = Some r"
  from readSlotBlocking_supplied [OF empty run] obtain k where k: "k < length xss"
    "mFullSlots (after_wakes ?ws k b) = 0"
    "mFullSlots (after_wakes ?ws (Suc k) b) \<noteq> 0"
    "r = readSlotNonBlocking (after_wakes ?ws (Suc k) b) q"
    by auto
  have step: "after_wakes ?ws (Suc k) b
                = inserts_by_producer (xss ! k) (after_wakes ?ws k b)"
    using k(1) by (simp add: after_wakes_Suc)
  have "xss ! k \<noteq> []"
  proof
    assume "xss ! k = []"
    then have "after_wakes ?ws (Suc k) b = after_wakes ?ws k b"
      by (simp add: step inserts_by_producer_def)
    then show False using k(2,3) by simp
  qed
  then show "\<exists>k < length xss.
            mFullSlots (after_wakes ?ws k b) = 0 \<and>
            xss ! k \<noteq> [] \<and>
            mFullSlots (after_wakes ?ws (Suc k) b) \<noteq> 0 \<and>
            r = readSlotNonBlocking (after_wakes ?ws (Suc k) b) q"
    using k by blast
qed

theorem blocking_waits_witness:
  "mFullSlots ex_full = mNumSlots ex_full \<and>
   insertSlotBlocking (map reads_by_consumer [[], []]) ex_full [9] = None \<and>
   insertSlotBlocking (map reads_by_consumer [[], [[0]]]) ex_full [9]
     = Some \<lparr> mSlotSize = 1, mNumSlots = 2, mTotalSize = 2,
              mReadPosition = 1, mWritePosition = 1, mFullSlots = 2,
              mRingBuffer = [9, 6], mLastReadSlot = [5] \<rparr> \<and>
   (\<exists>k < length [[], [[0 :: byte]]].
      mFullSlots (after_wakes (map reads_by_consumer [[], [[0]]]) k ex_full)
        = mNumSlots (after_wakes (map reads_by_consumer [[], [[0]]]) k ex_full) \<and>
      [[], [[0 :: byte]]] ! k \<noteq> [] \<and>
      mFullSlots (after_wakes (map reads_by_consumer [[], [[0]]]) (Suc k) ex_full)
        \<noteq> mNumSlots (after_wakes (map reads_by_consumer [[], [[0]]]) (Suc k) ex_full) \<and>
      \<lparr> mSlotSize = 1, mNumSlots = 2, mTotalSize = 2,
        mReadPosition = 1, mWritePosition = 1, mFullSlots = 2,
        mRingBuffer = [9, 6], mLastReadSlot = [5] \<rparr>
        = insertSlotNonBlocking
            (after_wakes (map reads_by_consumer [[], [[0]]]) (Suc k) ex_full) [9]) \<and>
   mFullSlots ex_drained = 0 \<and>
   readSlotBlocking (map inserts_by_producer [[], []]) ex_drained [9] = None \<and>
   readSlotBlocking (map inserts_by_producer [[], [[4]]]) ex_drained [9]
     = Some (\<lparr> mSlotSize = 1, mNumSlots = 3, mTotalSize = 3,
               mReadPosition = 0, mWritePosition = 0, mFullSlots = 0,
               mRingBuffer = [0, 7, 4], mLastReadSlot = [4] \<rparr>, [4]) \<and>
   (\<exists>k < length [[], [[4 :: byte]]].
      mFullSlots (after_wakes (map inserts_by_producer [[], [[4]]]) k ex_drained) = 0 \<and>
      [[], [[4 :: byte]]] ! k \<noteq> [] \<and>
      mFullSlots (after_wakes (map inserts_by_producer [[], [[4]]]) (Suc k) ex_drained)
        \<noteq> 0 \<and>
      (\<lparr> mSlotSize = 1, mNumSlots = 3, mTotalSize = 3,
         mReadPosition = 0, mWritePosition = 0, mFullSlots = 0,
         mRingBuffer = [0, 7, 4], mLastReadSlot = [4] \<rparr>, [4])
        = readSlotNonBlocking
            (after_wakes (map inserts_by_producer [[], [[4]]]) (Suc k) ex_drained) [9])"
proof -
  have full: "mFullSlots ex_full = mNumSlots ex_full"
    and empty: "mFullSlots ex_drained = 0"
    by (simp_all add: ex_full_def ex_drained_def)
  have parked: "insertSlotBlocking (map reads_by_consumer [[], []]) ex_full [9] = None"
    by (simp add: insertSlotBlocking.simps reads_by_consumer_def ex_full_def)
  have parked': "readSlotBlocking (map inserts_by_producer [[], []]) ex_drained [9] = None"
    by (simp add: readSlotBlocking.simps inserts_by_producer_def ex_drained_def)
  have ins: "insertSlotBlocking (map reads_by_consumer [[], [[0]]]) ex_full [9]
     = Some \<lparr> mSlotSize = 1, mNumSlots = 2, mTotalSize = 2,
              mReadPosition = 1, mWritePosition = 1, mFullSlots = 2,
              mRingBuffer = [9, 6], mLastReadSlot = [5] \<rparr>"
    by (simp add: insertSlotBlocking.simps reads_by_consumer_def ex_full_def run_defs)
  have rd: "readSlotBlocking (map inserts_by_producer [[], [[4]]]) ex_drained [9]
     = Some (\<lparr> mSlotSize = 1, mNumSlots = 3, mTotalSize = 3,
               mReadPosition = 0, mWritePosition = 0, mFullSlots = 0,
               mRingBuffer = [0, 7, 4], mLastReadSlot = [4] \<rparr>, [4])"
    by (simp add: readSlotBlocking.simps inserts_by_producer_def ex_drained_def run_defs)
  note producer = blocking_waits [of "[]" ex_full "[9]" "[9]" "[[], [[0]]]" "[]"]
  note consumer = blocking_waits [of "[]" ex_drained "[9]" "[9]" "[]" "[[], [[4]]]"]
  have a: "\<exists>k < length [[], [[0 :: byte]]].
      mFullSlots (after_wakes (map reads_by_consumer [[], [[0]]]) k ex_full)
        = mNumSlots (after_wakes (map reads_by_consumer [[], [[0]]]) k ex_full) \<and>
      [[], [[0 :: byte]]] ! k \<noteq> [] \<and>
      mFullSlots (after_wakes (map reads_by_consumer [[], [[0]]]) (Suc k) ex_full)
        \<noteq> mNumSlots (after_wakes (map reads_by_consumer [[], [[0]]]) (Suc k) ex_full) \<and>
      \<lparr> mSlotSize = 1, mNumSlots = 2, mTotalSize = 2,
        mReadPosition = 1, mWritePosition = 1, mFullSlots = 2,
        mRingBuffer = [9, 6], mLastReadSlot = [5] \<rparr>
        = insertSlotNonBlocking
            (after_wakes (map reads_by_consumer [[], [[0]]]) (Suc k) ex_full) [9]"
    using producer full ins by blast
  have b: "\<exists>k < length [[], [[4 :: byte]]].
      mFullSlots (after_wakes (map inserts_by_producer [[], [[4]]]) k ex_drained) = 0 \<and>
      [[], [[4 :: byte]]] ! k \<noteq> [] \<and>
      mFullSlots (after_wakes (map inserts_by_producer [[], [[4]]]) (Suc k) ex_drained)
        \<noteq> 0 \<and>
      (\<lparr> mSlotSize = 1, mNumSlots = 3, mTotalSize = 3,
         mReadPosition = 0, mWritePosition = 0, mFullSlots = 0,
         mRingBuffer = [0, 7, 4], mLastReadSlot = [4] \<rparr>, [4])
        = readSlotNonBlocking
            (after_wakes (map inserts_by_producer [[], [[4]]]) (Suc k) ex_drained) [9]"
    using consumer empty rd by blast
  show ?thesis
    by (intro conjI full parked ins a empty parked' rd b)
qed

end
